theory Spec2Isabelle
  imports Complex_Main "HOL-Library.Word" "HOL-Library.Multiset"
begin


section \<open>Faults\<close>

text \<open>
  A Go call either returns, panics, or waits on a channel operation that no other
  goroutine of the model completes. The last two are values of \<open>fault\<close>; a function that
  can panic or wait returns \<open>fault + 'a\<close>, with \<open>Inl\<close> for the fault. Where a call has
  changed shared state before its fault, the state it reached is returned next to the
  fault.
\<close>

datatype fault = Panic | Blocked

section \<open>RandomQueue (randomQueue.go)\<close>

text \<open>
  The queue is the slice \<open>files\<close>; the mutex only serialises the calls and is not part of
  the model. The global source of \<open>math/rand\<close> is the sequence of raw draws still to
  come: \<open>rand_Intn\<close> panics for \<open>n \<le> 0\<close>, as \<open>rand.Intn\<close> does, and otherwise
  reduces the next draw into \<open>[0, n)\<close> and moves on. Every sequence of indices is the
  result of some source, so a statement for all sources is one for all outcomes of the draw.
\<close>

record 'a RandomQueue =
  files :: "'a list"

type_synonym rand_source = "nat \<Rightarrow> nat"

definition rand_Intn :: "rand_source \<Rightarrow> int \<Rightarrow> fault + (nat \<times> rand_source)" where
  "rand_Intn src n =
     (if n \<le> 0 then Inl Panic else Inr (src 0 mod nat n, \<lambda>i. src (Suc i)))"

definition NewRandomQueue :: "'a RandomQueue" where
  "NewRandomQueue = \<lparr>files = []\<rparr>"

definition Add :: "'a RandomQueue \<Rightarrow> 'a \<Rightarrow> 'a RandomQueue" where
  "Add r f = r\<lparr>files := files r @ [f]\<rparr>"

definition GetAndRemove ::
  "'a RandomQueue \<Rightarrow> rand_source \<Rightarrow> fault + ('a \<times> 'a RandomQueue \<times> rand_source)" where
  "GetAndRemove r src =
     (case rand_Intn src (int (length (files r))) of
        Inl e \<Rightarrow> Inl e
      | Inr (offset, src') \<Rightarrow>
          let f = files r ! offset;
              moved = (files r)[offset := files r ! (length (files r) - 1)]
          in Inr (f, r\<lparr>files := take (length (files r) - 1) moved\<rparr>, src'))"

definition Len :: "'a RandomQueue \<Rightarrow> int" where
  "Len r = int (length (files r))"

text \<open>\<open>AddAll\<close> adds the items of a list one by one; \<open>Drain k\<close> calls \<open>GetAndRemove\<close>
  \<open>k\<close> times and collects what it returned, stopping at the first panic.\<close>

fun AddAll :: "'a RandomQueue \<Rightarrow> 'a list \<Rightarrow> 'a RandomQueue" where
  "AddAll r [] = r"
| "AddAll r (x # xs) = AddAll (Add r x) xs"

fun Drain ::
  "nat \<Rightarrow> 'a RandomQueue \<Rightarrow> rand_source \<Rightarrow> fault + ('a list \<times> 'a RandomQueue \<times> rand_source)" where
  "Drain 0 r src = Inr ([], r, src)"
| "Drain (Suc k) r src =
     (case GetAndRemove r src of
        Inl e \<Rightarrow> Inl e
      | Inr (f, r', src') \<Rightarrow>
          (case Drain k r' src' of
             Inl e \<Rightarrow> Inl e
           | Inr (fs, r'', src'') \<Rightarrow> Inr (f # fs, r'', src'')))"


section \<open>Channels\<close>

text \<open>
  A channel value is an address into a store of channels; the store maps an address to
  the buffer, the capacity and the closed flag of the channel, and an address without a
  cell is the nil channel. The model runs the calling goroutine alone: a send that finds
  the buffer full (always, for capacity 0) has to wait for a receiver and is \<open>Blocked\<close>,
  as is every send on a nil channel; a send on a closed channel panics, and so does closing
  a closed or nil channel.
\<close>

record 't chan =
  chan_buf :: "'t list"
  chan_cap :: nat
  chan_closed :: bool

record 't heap =
  cells :: "nat \<Rightarrow> 't chan option"
  fresh :: nat

definition empty_heap :: "'t heap" where
  "empty_heap = \<lparr>cells = (\<lambda>a. None), fresh = 0\<rparr>"

definition make_chan :: "'t heap \<Rightarrow> nat \<Rightarrow> nat \<times> 't heap" where
  "make_chan h n =
     (fresh h,
      h\<lparr>cells := (cells h)(fresh h \<mapsto> \<lparr>chan_buf = [], chan_cap = n, chan_closed = False\<rparr>),
        fresh := Suc (fresh h)\<rparr>)"

definition chan_send :: "'t heap \<Rightarrow> nat \<Rightarrow> 't \<Rightarrow> fault + 't heap" where
  "chan_send h c v =
     (case cells h c of
        None \<Rightarrow> Inl Blocked
      | Some ch \<Rightarrow>
          if chan_closed ch then Inl Panic
          else if length (chan_buf ch) < chan_cap ch
          then Inr (h\<lparr>cells := (cells h)(c \<mapsto> ch\<lparr>chan_buf := chan_buf ch @ [v]\<rparr>)\<rparr>)
          else Inl Blocked)"

text \<open>
  A receive \<open>v, ok := <-c\<close> by the subscriber that holds the channel: the head of the
  buffer, or nothing (\<open>ok\<close> false) from a closed channel that is drained; on an open
  empty channel, and on the nil channel, the receiver waits.
\<close>

definition chan_recv :: "'t heap \<Rightarrow> nat \<Rightarrow> fault + ('t option \<times> 't heap)" where
  "chan_recv h c =
     (case cells h c of
        None \<Rightarrow> Inl Blocked
      | Some ch \<Rightarrow>
          (case chan_buf ch of
             [] \<Rightarrow> if chan_closed ch then Inr (None, h) else Inl Blocked
           | x # xs \<Rightarrow> Inr (Some x, h\<lparr>cells := (cells h)(c \<mapsto> ch\<lparr>chan_buf := xs\<rparr>)\<rparr>)))"

definition chan_close :: "'t heap \<Rightarrow> nat \<Rightarrow> fault + 't heap" where
  "chan_close h c =
     (case cells h c of
        None \<Rightarrow> Inl Panic
      | Some ch \<Rightarrow>
          if chan_closed ch then Inl Panic
          else Inr (h\<lparr>cells := (cells h)(c \<mapsto> ch\<lparr>chan_closed := True\<rparr>)\<rparr>))"

section \<open>PubSub (the pubsub source in email.go, and its second copy part\_005)\<close>

record PubSub =
  clients :: "nat list"

definition NewPubSub :: PubSub where
  "NewPubSub = \<lparr>clients = []\<rparr>"

definition Register :: "PubSub \<Rightarrow> 't heap \<Rightarrow> nat \<Rightarrow> nat \<times> PubSub \<times> 't heap" where
  "Register s h buffSize =
     (let (c, h') = make_chan h buffSize
      in (c, s\<lparr>clients := clients s @ [c]\<rparr>, h'))"

text \<open>
  The loop of \<open>Broadcast\<close> over its copy of the client slice. The sends are made one
  after the other, so a send that panics or has to wait leaves the messages already sent
  where they are: the loop returns how it ended (\<open>None\<close> when every send was made, the
  fault of the send it stopped at otherwise) together with the store it reached.
\<close>

fun send_all :: "'t heap \<Rightarrow> nat list \<Rightarrow> 't \<Rightarrow> fault option \<times> 't heap" where
  "send_all h [] msg = (None, h)"
| "send_all h (v # vs) msg =
     (case chan_send h v msg of
        Inl e \<Rightarrow> (Some e, h)
      | Inr h' \<Rightarrow> send_all h' vs msg)"

definition Broadcast :: "PubSub \<Rightarrow> 't heap \<Rightarrow> 't \<Rightarrow> fault option \<times> 't heap" where
  "Broadcast s h msg = (let buffer = clients s in send_all h buffer msg)"

text \<open>
  \<open>Unregister\<close> of the pubsub source in email.go: the loop runs over the indices of the
  client slice from \<open>i\<close>; at the first slot holding \<open>c\<close> it copies the last slot there,
  cuts the slice by one and stops. It performs no channel operation, so the store it is
  given is the store it returns.
\<close>

function Unregister_loop :: "nat list \<Rightarrow> nat \<Rightarrow> nat \<Rightarrow> nat list" where
  "Unregister_loop cl i c =
     (if i < length cl
      then (if cl ! i = c
            then take (length cl - 1) (cl[i := cl ! (length cl - 1)])
            else Unregister_loop cl (Suc i) c)
      else cl)"
  by pat_completeness auto
termination
  by (relation "measure (\<lambda>(cl, i, c). length cl - i)") auto

declare Unregister_loop.simps [simp del]

definition Unregister :: "PubSub \<Rightarrow> 't heap \<Rightarrow> nat \<Rightarrow> PubSub \<times> 't heap" where
  "Unregister s h c = (s\<lparr>clients := Unregister_loop (clients s) 0 c\<rparr>, h)"

text \<open>
  \<open>Unregister\<close> of the second copy (part\_005): the same loop, with \<open>close(v)\<close> on the
  slot it found before the slot is overwritten.
\<close>

function Unregister_loop_part_005 ::
  "nat list \<Rightarrow> 't heap \<Rightarrow> nat \<Rightarrow> nat \<Rightarrow> fault + (nat list \<times> 't heap)" where
  "Unregister_loop_part_005 cl h i c =
     (if i < length cl
      then (if cl ! i = c
            then (case chan_close h (cl ! i) of
                    Inl e \<Rightarrow> Inl e
                  | Inr h' \<Rightarrow> Inr (take (length cl - 1) (cl[i := cl ! (length cl - 1)]), h'))
            else Unregister_loop_part_005 cl h (Suc i) c)
      else Inr (cl, h))"
  by pat_completeness auto
termination
  by (relation "measure (\<lambda>(cl, h, i, c). length cl - i)") auto

declare Unregister_loop_part_005.simps [simp del]

definition Unregister_part_005 :: "PubSub \<Rightarrow> 't heap \<Rightarrow> nat \<Rightarrow> fault + (PubSub \<times> 't heap)" where
  "Unregister_part_005 s h c =
     (case Unregister_loop_part_005 (clients s) h 0 c of
        Inl e \<Rightarrow> Inl e
      | Inr (cl, h') \<Rightarrow> Inr (s\<lparr>clients := cl\<rparr>, h'))"

definition Size :: "PubSub \<Rightarrow> int" where
  "Size s = int (length (clients s))"

definition IsActive :: "PubSub \<Rightarrow> bool" where
  "IsActive s = (length (clients s) > 0)"

text \<open>A channel is open in a store when it has a cell there that is not closed.\<close>

definition is_open :: "'t heap \<Rightarrow> nat \<Rightarrow> bool" where
  "is_open h c = (case cells h c of None \<Rightarrow> False | Some ch \<Rightarrow> \<not> chan_closed ch)"

text \<open>A channel has room when it is open and its buffer is not full: a send returns.\<close>

definition has_room :: "'t heap \<Rightarrow> nat \<Rightarrow> bool" where
  "has_room h c =
     (case cells h c of
        None \<Rightarrow> False
      | Some ch \<Rightarrow> \<not> chan_closed ch \<and> length (chan_buf ch) < chan_cap ch)"

text \<open>What a channel holds, for a store and an address (nothing for the nil channel).\<close>

definition contents :: "'t heap \<Rightarrow> nat \<Rightarrow> 't list" where
  "contents h c = (case cells h c of None \<Rightarrow> [] | Some ch \<Rightarrow> chan_buf ch)"

text \<open>A channel after \<open>k\<close> more sends of \<open>msg\<close>.\<close>

definition deliver :: "nat \<Rightarrow> 't \<Rightarrow> 't chan \<Rightarrow> 't chan" where
  "deliver k msg ch = ch\<lparr>chan_buf := chan_buf ch @ replicate k msg\<rparr>"

text \<open>
  The subscribers of pubsub\_test.go: three channels of capacity 1 registered with a new
  PubSub, in a store that holds nothing else.
\<close>

definition three_subscribers :: "PubSub \<times> string heap" where
  "three_subscribers =
     (let (one, s1, h1) = Register NewPubSub empty_heap 1;
          (two, s2, h2) = Register s1 h1 1;
          (three, s3, h3) = Register s2 h2 1
      in (s3, h3))"

text \<open>
  The same three subscribers with the third one stalled: a first broadcast of \<open>''one''\<close>
  has filled the three channels, the first two subscribers have received their message,
  the third has not.
\<close>

definition stalled_third :: "PubSub \<times> string heap" where
  "stalled_third =
     (let (s, h0) = three_subscribers;
          h1 = snd (Broadcast s h0 ''one'');
          h2 = snd (projr (chan_recv h1 0));
          h3 = snd (projr (chan_recv h2 1))
      in (s, h3))"

text \<open>
  What \<open>Register\<close> keeps true of a PubSub and its store: the clients are distinct
  channels, all of them made before (below \<open>fresh\<close>) and present in the store.
\<close>

definition registered_ok :: "PubSub \<Rightarrow> 't heap \<Rightarrow> bool" where
  "registered_ok s h =
     (distinct (clients s) \<and> list_all (\<lambda>c. c < fresh h \<and> cells h c \<noteq> None) (clients s))"


section \<open>Time, errors and the world of a fetcher\<close>

text \<open>
  A \<open>time.Time\<close> is the number of nanoseconds since the zero \<open>Time\<close>, so the zero value
  of a \<open>timeOut\<close> field is 0 and every reading of the clock is positive; a
  \<open>time.Duration\<close> is a number of nanoseconds. \<open>t.After(u)\<close> is \<open>u < t\<close> and
  \<open>t.Add(d)\<close> is \<open>t + d\<close>. A Go \<open>error\<close> is \<open>None\<close> for \<open>nil\<close> and \<open>Some\<close> of its
  message otherwise. A fetcher is a Go function with effects of its own: it is run in a
  world that holds the clock and the fetcher's state, returns both results of the Go
  function, the value and the error, and leaves the world it has changed; the time a fetch
  takes is the advance of the clock in that world. Time passes nowhere else inside a call.
\<close>

type_synonym go_error = string

record 'f world =
  now :: int
  fstate :: 'f

definition Millisecond :: int where
  "Millisecond = 1000000"

definition sleep :: "int \<Rightarrow> 'f world \<Rightarrow> 'f world" where
  "sleep dt w = w\<lparr>now := now w + dt\<rparr>"

section \<open>Debouncer (the debounce source in valueTracker.go)\<close>

record ('t, 'f) Debouncer =
  fetcher :: "'f world \<Rightarrow> ('t \<times> go_error option) \<times> 'f world"
  lastValue :: 't
  timeOut :: int
  delay :: int

text \<open>\<open>zero\<close> is the zero value of the type \<open>T\<close> the debouncer is made for.\<close>

definition NewDebouncer ::
  "'t \<Rightarrow> int \<Rightarrow> ('f world \<Rightarrow> ('t \<times> go_error option) \<times> 'f world) \<Rightarrow> ('t, 'f) Debouncer" where
  "NewDebouncer zero dly fetch =
     \<lparr>fetcher = fetch, lastValue = zero, timeOut = 0, delay = dly\<rparr>"

definition Debouncer_GetValue ::
  "('t, 'f) Debouncer \<Rightarrow> 'f world \<Rightarrow> ('t \<times> go_error option) \<times> ('t, 'f) Debouncer \<times> 'f world" where
  "Debouncer_GetValue d w =
     (if timeOut d < now w
      then (let ((value, err), w') = fetcher d w;
                d' = (if err = None
                      then d\<lparr>timeOut := now w' + delay d, lastValue := value\<rparr>
                      else d)
            in ((lastValue d', None), d', w'))
      else ((lastValue d, None), d, w))"

section \<open>PubSubDebouncer (the debounce source in valueTracker.go)\<close>

text \<open>
  The fields of the struct that the synchronous calls use. The context and the
  goroutine \<open>fetcher\<close> that \<open>Register\<close> starts belong to the background refresh and are
  not part of this model; the read-write mutex only serialises the calls.
\<close>

record ('t, 'f) PubSubDebouncer =
  lastValue :: 't
  listeners :: PubSub
  delay :: int
  timeOut :: int
  fetcherFunc :: "'f world \<Rightarrow> ('t \<times> go_error option) \<times> 'f world"

definition NewPubSubDebouncer ::
  "'t \<Rightarrow> int \<Rightarrow> ('f world \<Rightarrow> ('t \<times> go_error option) \<times> 'f world)
     \<Rightarrow> fault + ('t, 'f) PubSubDebouncer" where
  "NewPubSubDebouncer zero dly fetch =
     (if dly < 100 * Millisecond then Inl Panic
      else Inr \<lparr>lastValue = zero, listeners = NewPubSub, delay = dly, timeOut = 0,
                fetcherFunc = fetch\<rparr>)"

definition PubSubDebouncer_GetValue ::
  "('t, 'f) PubSubDebouncer \<Rightarrow> 'f world
     \<Rightarrow> ('t \<times> go_error option) \<times> ('t, 'f) PubSubDebouncer \<times> 'f world" where
  "PubSubDebouncer_GetValue d w =
     (if timeOut d < now w
      then (let ((value, err), w') = fetcherFunc d w;
                d' = d\<lparr>lastValue := value\<rparr>;
                d'' = (if err = None then d'\<lparr>timeOut := now w' + delay d'\<rparr> else d')
            in ((lastValue d'', err), d'', w'))
      else ((lastValue d, None), d, w))"

definition PubSubDebouncer_GetValueMust ::
  "('t, 'f) PubSubDebouncer \<Rightarrow> 'f world \<Rightarrow> fault + ('t \<times> ('t, 'f) PubSubDebouncer \<times> 'f world)" where
  "PubSubDebouncer_GetValueMust d w =
     (let ((value, err), d', w') = PubSubDebouncer_GetValue d w
      in if err \<noteq> None then Inl Panic else Inr (value, d', w'))"

subsection \<open>Floating-point values in SetValue\<close>

text \<open>
  A \<open>float64\<close> or \<open>float32\<close> value is not a number, an infinity, or a finite real (the
  two zeros are one value here: the code only subtracts, takes absolute values and
  compares). \<open>math.Abs\<close> and the comparison \<open>>\<close> are exact operations and are defined;
  the subtraction rounds, differently for the two widths, and its rounding is a parameter
  of the model: \<open>sub64\<close> and \<open>sub32\<close> stand for the two subtractions and nothing is
  assumed about them. The constants \<open>0.00000001\<close> and \<open>0.00001\<close> are compared as
  \<open>float64\<close> values, so they are the \<open>float64\<close> numbers nearest to them.
\<close>

datatype fl = NaN | PosInf | NegInf | Finite real

fun math_Abs :: "fl \<Rightarrow> fl" where
  "math_Abs NaN = NaN"
| "math_Abs PosInf = PosInf"
| "math_Abs NegInf = PosInf"
| "math_Abs (Finite x) = Finite \<bar>x\<bar>"

fun fl_gt :: "fl \<Rightarrow> fl \<Rightarrow> bool" where
  "fl_gt NaN b = False"
| "fl_gt a NaN = False"
| "fl_gt PosInf PosInf = False"
| "fl_gt PosInf b = True"
| "fl_gt NegInf b = False"
| "fl_gt (Finite x) PosInf = False"
| "fl_gt (Finite x) NegInf = True"
| "fl_gt (Finite x) (Finite y) = (y < x)"

record float_arith =
  sub64 :: "fl \<Rightarrow> fl \<Rightarrow> fl"
  sub32 :: "fl \<Rightarrow> fl \<Rightarrow> fl"

definition epsilon64 :: real where
  "epsilon64 = 3022314549036573 / 2 ^ 78"

definition epsilon32 :: real where
  "epsilon32 = 5902958103587057 / 2 ^ 69"

text \<open>
  The type \<open>T\<close> of a debouncer is a type of its own, fixed when the debouncer is made; the
  type switch of \<open>SetValue\<close> asks which one it is. \<open>TFloat64\<close> and \<open>TFloat32\<close> come with
  the type assertion that reads a value of \<open>T\<close> as a float. (An interface type \<open>T\<close>,
  whose values have dynamic types of their own, is outside this model.)

  Every other type takes the default branch, which compares with Go's \<open>!=\<close>. Go's
  \<open>==\<close> on a comparable type is symmetric and transitive but not reflexive: a value of
  a named float type that is a NaN, or a struct or array with such a value inside, is
  not equal to itself. The values of \<open>T\<close> are taken up to \<open>==\<close> (two values that
  \<open>==\<close> holds of are one value, as the two zeros are), and \<open>TOther\<close> comes with the
  set of values that are not equal to themselves; \<open>go_ne\<close> is Go's \<open>!=\<close> then: two
  values are unequal when they are different values, or the same value not equal to
  itself.
\<close>

datatype 't go_type = TFloat64 "'t \<Rightarrow> fl" | TFloat32 "'t \<Rightarrow> fl" | TOther "'t \<Rightarrow> bool"

definition go_ne :: "('t \<Rightarrow> bool) \<Rightarrow> 't \<Rightarrow> 't \<Rightarrow> bool" where
  "go_ne irreflexive a b = (a \<noteq> b \<or> irreflexive a)"


fun irreflexive_NaN :: "fl \<Rightarrow> bool" where
  "irreflexive_NaN NaN = True"
| "irreflexive_NaN v = False"

text \<open>
  \<open>SetValue\<close> ends its critical section before it broadcasts, so the debouncer it leaves
  is returned next to the outcome of the broadcast: how the sends ended and the store
  they reached (the store as it was, and \<open>None\<close>, when nothing is broadcast).
\<close>

definition PubSubDebouncer_SetValue ::
  "float_arith \<Rightarrow> 't go_type \<Rightarrow> ('t, 'f) PubSubDebouncer \<Rightarrow> 't heap \<Rightarrow> 'f world \<Rightarrow> 't
     \<Rightarrow> ('t, 'f) PubSubDebouncer \<times> (fault option \<times> 't heap)" where
  "PubSubDebouncer_SetValue fa ty d h w value =
     (let (d1, doBroadcast) =
            (case ty of
               TFloat64 as64 \<Rightarrow>
                 if fl_gt (math_Abs (sub64 fa (as64 (lastValue d)) (as64 value))) (Finite epsilon64)
                 then (d\<lparr>lastValue := value\<rparr>, True) else (d, False)
             | TFloat32 as32 \<Rightarrow>
                 if fl_gt (math_Abs (sub32 fa (as32 (lastValue d)) (as32 value))) (Finite epsilon32)
                 then (d\<lparr>lastValue := value\<rparr>, True) else (d, False)
             | TOther irreflexive \<Rightarrow>
                 if go_ne irreflexive (lastValue d) value
                 then (d\<lparr>lastValue := value\<rparr>, True) else (d, False));
          d2 = d1\<lparr>timeOut := now w + delay d1\<rparr>
      in (d2, if doBroadcast then Broadcast (listeners d2) h value else (None, h)))"

text \<open>
  \<open>Register\<close> of the debouncer registers a channel of capacity 1; the flag it returns
  here says whether the call starts the background goroutine.
\<close>

definition PubSubDebouncer_Register ::
  "('t, 'f) PubSubDebouncer \<Rightarrow> 't heap \<Rightarrow> nat \<times> ('t, 'f) PubSubDebouncer \<times> 't heap \<times> bool" where
  "PubSubDebouncer_Register d h =
     (let wasActive = IsActive (listeners d);
          (newListener, s', h') = Register (listeners d) h 1
      in (newListener, d\<lparr>listeners := s'\<rparr>, h', \<not> wasActive))"

definition PubSubDebouncer_Unregister ::
  "('t, 'f) PubSubDebouncer \<Rightarrow> 't heap \<Rightarrow> nat \<Rightarrow> ('t, 'f) PubSubDebouncer \<times> 't heap" where
  "PubSubDebouncer_Unregister d h c =
     (let (s', h') = Unregister (listeners d) h c in (d\<lparr>listeners := s'\<rparr>, h'))"

subsection \<open>The fetchers of debounce\_test.go\<close>

text \<open>
  The fetcher of the tests counts its calls; when \<open>fail\<close> is set it returns 0 and an
  error, otherwise it increments \<open>val\<close> and returns it. It takes no time.
\<close>

record fetch_state =
  calls :: int
  val :: int
  fail :: bool

definition test_fetcher :: "fetch_state world \<Rightarrow> (int \<times> go_error option) \<times> fetch_state world" where
  "test_fetcher w =
     (let st = (fstate w)\<lparr>calls := calls (fstate w) + 1\<rparr>
      in if fail st then ((0, Some ''fail''), w\<lparr>fstate := st\<rparr>)
         else ((val st + 1, None), w\<lparr>fstate := st\<lparr>val := val st + 1\<rparr>\<rparr>))"

text \<open>Subtraction of floats without rounding, for values whose difference is a float.\<close>

fun sub_exact :: "fl \<Rightarrow> fl \<Rightarrow> fl" where
  "sub_exact NaN b = NaN"
| "sub_exact a NaN = NaN"
| "sub_exact PosInf PosInf = NaN"
| "sub_exact PosInf b = PosInf"
| "sub_exact NegInf NegInf = NaN"
| "sub_exact NegInf b = NegInf"
| "sub_exact (Finite x) PosInf = NegInf"
| "sub_exact (Finite x) NegInf = PosInf"
| "sub_exact (Finite x) (Finite y) = Finite (x - y)"

text \<open>
  The timing scenario of the tests, for a debouncer \<open>d0\<close> with the counting fetcher: a
  first \<open>GetValue\<close> at time \<open>t0\<close>, a second after a sleep of \<open>s1\<close>, a third after a
  further sleep of \<open>s2\<close>. Each entry is what the call returned and how often the fetcher
  has been called by then.
\<close>

definition debounce_scenario ::
  "(int, fetch_state) PubSubDebouncer \<Rightarrow> int \<Rightarrow> int \<Rightarrow> int
     \<Rightarrow> ((int \<times> go_error option) \<times> int) list" where
  "debounce_scenario d0 t0 s1 s2 =
     (let w0 = \<lparr>now = t0, fstate = \<lparr>calls = 0, val = 0, fail = False\<rparr>\<rparr>;
          (r1, d1, w1) = PubSubDebouncer_GetValue d0 w0;
          (r2, d2, w2) = PubSubDebouncer_GetValue d1 (sleep s1 w1);
          (r3, d3, w3) = PubSubDebouncer_GetValue d2 (sleep s2 w2)
      in [(r1, calls (fstate w1)), (r2, calls (fstate w2)), (r3, calls (fstate w3))])"

text \<open>A fetcher that returns the same value each time, without error.\<close>

definition const_fetcher :: "'t \<Rightarrow> 'f world \<Rightarrow> ('t \<times> go_error option) \<times> 'f world" where
  "const_fetcher v w = ((v, None), w)"

text \<open>
  A debouncer with two listeners: made by the constructor with a delay of 120 ms and
  registered with twice, in a store that holds nothing else.
\<close>

definition two_listeners ::
  "'t \<Rightarrow> ('f world \<Rightarrow> ('t \<times> go_error option) \<times> 'f world) \<Rightarrow> ('t, 'f) PubSubDebouncer \<times> 't heap" where
  "two_listeners zero fetch =
     (let d0 = projr (NewPubSubDebouncer zero (120 * Millisecond) fetch);
          (c1, d1, h1, started1) = PubSubDebouncer_Register d0 empty_heap;
          (c2, d2, h2, started2) = PubSubDebouncer_Register d1 h1
      in (d2, h2))"


section \<open>WorkerPool (workerPool.go)\<close>

text \<open>
  The pool runs several goroutines: the workers that \<open>NewWorkerPool\<close> starts and the
  callers of \<open>Post\<close>, \<open>Result\<close> and \<open>Close\<close>. The model is a state and the atomic steps
  the goroutines take on it; an execution is a list of steps, in the order some scheduler
  ran them.

  The state holds the buffers of the two channels (both of capacity \<open>backlog\<close>), the
  closed flag of the work channel, the worker function, the 32-bit atomic counter, and
  where each goroutine stands: a worker is \<open>Waiting\<close> at its receive from the work
  channel, \<open>Sending r\<close> at its send of \<open>r = f(w)\<close> to the result channel, or \<open>Exited\<close>;
  \<open>posting\<close> holds the items of the \<open>Post\<close> calls that have added 1 to the counter and
  stand at their send; \<open>taken\<close> holds the values of the \<open>Result\<close> calls that have received
  and have yet to subtract 1 and return.
\<close>

datatype 'r worker = Waiting | Sending 'r | Exited

record ('w, 'r) WorkerPool =
  work :: "'w list"
  work_closed :: bool
  result :: "'r list"
  backlog :: nat
  workFn :: "'w \<Rightarrow> 'r"
  count_wp :: "32 word"
  workers :: "'r worker list"
  posting :: "'w list"
  taken :: "'r list"

definition NewWorkerPool :: "('w \<Rightarrow> 'r) \<Rightarrow> int \<Rightarrow> int \<Rightarrow> fault + ('w, 'r) WorkerPool" where
  "NewWorkerPool fn backlog_arg numWorkers =
     (if backlog_arg < 0 then Inl Panic
      else if numWorkers < 1 then Inl Panic
      else Inr \<lparr>work = [], work_closed = False, result = [], backlog = nat backlog_arg,
                workFn = fn, count_wp = 0, workers = replicate (nat numWorkers) Waiting,
                posting = [], taken = []\<rparr>)"

definition WorkerPool_Len :: "('w, 'r) WorkerPool \<Rightarrow> int" where
  "WorkerPool_Len wp = sint (count_wp wp)"

definition WorkerPool_IsActive :: "('w, 'r) WorkerPool \<Rightarrow> bool" where
  "WorkerPool_IsActive wp = (0 < sint (count_wp wp))"

text \<open>
  The steps. A send completes into a buffer with room, or straight into the hands of a
  goroutine waiting at the other end when the buffer is empty (the only way for capacity
  0); a receive takes the head of the buffer. A step that cannot be taken in a state is
  \<open>Blocked\<close>: the goroutine waits, and no scheduler runs that step there.
  \<^item> \<open>PostCall w\<close>: a caller enters \<open>Post(w)\<close> and adds 1 to the counter.
  \<^item> \<open>PostSend i\<close>, \<open>PostHandoff i j\<close>: the send of pending \<open>Post\<close> number \<open>i\<close>
    completes, into the buffer or to waiting worker \<open>j\<close>; the call returns. On a closed
    work channel the send panics.
  \<^item> \<open>WorkerTake j\<close>: worker \<open>j\<close> receives the head of the work buffer and applies \<open>f\<close>.
  \<^item> \<open>WorkerExit j\<close>: worker \<open>j\<close> finds the work channel closed and drained and leaves
    its loop.
  \<^item> \<open>WorkerSend j\<close>: the send of worker \<open>j\<close> completes into the result buffer.
  \<^item> \<open>ResultRecv\<close>, \<open>ResultHandoff j\<close>: a caller of \<open>Result\<close> receives, from the buffer
    or from sending worker \<open>j\<close>.
  \<^item> \<open>ResultReturn i\<close>: pending \<open>Result\<close> number \<open>i\<close> subtracts 1 from the counter and
    returns its value.
  \<^item> \<open>CloseCall\<close>: \<open>Close()\<close>; closing twice panics.
\<close>

datatype 'w action =
    PostCall 'w | PostSend nat | PostHandoff nat nat
  | WorkerTake nat | WorkerExit nat | WorkerSend nat
  | ResultRecv | ResultHandoff nat | ResultReturn nat
  | CloseCall

definition delete_at :: "nat \<Rightarrow> 'a list \<Rightarrow> 'a list" where
  "delete_at i xs = take i xs @ drop (Suc i) xs"

fun step :: "'w action \<Rightarrow> ('w, 'r) WorkerPool \<Rightarrow> fault + (('w, 'r) WorkerPool \<times> 'r list)" where
  "step (PostCall w) p =
     Inr (p\<lparr>count_wp := count_wp p + 1, posting := posting p @ [w]\<rparr>, [])"
| "step (PostSend i) p =
     (if i < length (posting p)
      then (if work_closed p then Inl Panic
            else if length (work p) < backlog p
            then Inr (p\<lparr>work := work p @ [posting p ! i],
                        posting := delete_at i (posting p)\<rparr>, [])
            else Inl Blocked)
      else Inl Blocked)"
| "step (PostHandoff i j) p =
     (if i < length (posting p) \<and> j < length (workers p)
      then (if work_closed p then Inl Panic
            else if work p = [] \<and> workers p ! j = Waiting
            then Inr (p\<lparr>workers := (workers p)[j := Sending (workFn p (posting p ! i))],
                        posting := delete_at i (posting p)\<rparr>, [])
            else Inl Blocked)
      else Inl Blocked)"
| "step (WorkerTake j) p =
     (if j < length (workers p) \<and> workers p ! j = Waiting \<and> work p \<noteq> []
      then Inr (p\<lparr>work := tl (work p),
                  workers := (workers p)[j := Sending (workFn p (hd (work p)))]\<rparr>, [])
      else Inl Blocked)"
| "step (WorkerExit j) p =
     (if j < length (workers p) \<and> workers p ! j = Waiting \<and> work p = [] \<and> work_closed p
      then Inr (p\<lparr>workers := (workers p)[j := Exited]\<rparr>, [])
      else Inl Blocked)"
| "step (WorkerSend j) p =
     (if j < length (workers p)
      then (case workers p ! j of
              Sending r \<Rightarrow>
                if length (result p) < backlog p
                then Inr (p\<lparr>result := result p @ [r], workers := (workers p)[j := Waiting]\<rparr>, [])
                else Inl Blocked
            | _ \<Rightarrow> Inl Blocked)
      else Inl Blocked)"
| "step ResultRecv p =
     (if result p \<noteq> []
      then Inr (p\<lparr>result := tl (result p), taken := taken p @ [hd (result p)]\<rparr>, [])
      else Inl Blocked)"
| "step (ResultHandoff j) p =
     (if j < length (workers p) \<and> result p = []
      then (case workers p ! j of
              Sending r \<Rightarrow>
                Inr (p\<lparr>workers := (workers p)[j := Waiting], taken := taken p @ [r]\<rparr>, [])
            | _ \<Rightarrow> Inl Blocked)
      else Inl Blocked)"
| "step (ResultReturn i) p =
     (if i < length (taken p)
      then Inr (p\<lparr>count_wp := count_wp p - 1, taken := delete_at i (taken p)\<rparr>, [taken p ! i])
      else Inl Blocked)"
| "step CloseCall p =
     (if work_closed p then Inl Panic else Inr (p\<lparr>work_closed := True\<rparr>, []))"

text \<open>An execution: the steps in order, with the values the \<open>Result\<close> calls returned.\<close>

fun run :: "'w action list \<Rightarrow> ('w, 'r) WorkerPool \<Rightarrow> fault + (('w, 'r) WorkerPool \<times> 'r list)" where
  "run [] p = Inr (p, [])"
| "run (a # as) p =
     (case step a p of
        Inl e \<Rightarrow> Inl e
      | Inr (p', out1) \<Rightarrow>
          (case run as p' of
             Inl e \<Rightarrow> Inl e
           | Inr (p'', out2) \<Rightarrow> Inr (p'', out1 @ out2)))"

text \<open>The items of the \<open>Post\<close> calls made in an execution, in order.\<close>

fun posted :: "'w action list \<Rightarrow> 'w list" where
  "posted [] = []"
| "posted (PostCall w # as) = w # posted as"
| "posted (a # as) = posted as"

text \<open>What the goroutines hold between the two ends: the results on the way.\<close>

fun held :: "'r worker \<Rightarrow> 'r list" where
  "held (Sending r) = [r]"
| "held w = []"

definition in_flight :: "('w, 'r) WorkerPool \<Rightarrow> 'r multiset" where
  "in_flight p =
     mset (map (workFn p) (posting p)) + mset (map (workFn p) (work p)) +
     mset (concat (map held (workers p))) + mset (result p) + mset (taken p)"

text \<open>
  The executions of the statements below. \<open>serve w\<close> takes one item through the pool by
  hand-offs: posted, handed to worker 0, handed to a caller of \<open>Result\<close>, returned.
  \<open>flood n\<close> is \<open>n\<close> calls of \<open>Post\<close> that all return, their items left in the buffer.
\<close>

definition serve :: "'w \<Rightarrow> 'w action list" where
  "serve w = [PostCall w, PostHandoff 0 0, ResultHandoff 0, ResultReturn 0]"

definition flood :: "nat \<Rightarrow> 'w \<Rightarrow> 'w action list" where
  "flood n w = concat (replicate n [PostCall w, PostSend 0])"

text \<open>
  A pool at rest with a worker ready: no call is under way, both buffers are empty, the
  work channel is open and worker 0 waits for work.
\<close>

definition idle :: "('w, 'r) WorkerPool \<Rightarrow> bool" where
  "idle p = (posting p = [] \<and> taken p = [] \<and> work p = [] \<and> result p = [] \<and>
     \<not> work_closed p \<and> workers p \<noteq> [] \<and> workers p ! 0 = Waiting)"


section \<open>RandomQueue: removal by swap with the last slot\<close>

lemma swap_last_mset:
  assumes "off < length xs"
  shows "add_mset (xs ! off) (mset (take (length xs - 1) (xs[off := xs ! (length xs - 1)]))) = mset xs"
proof (cases xs rule: rev_cases)
  case Nil
  with assms show ?thesis by simp
next
  case (snoc ys y)
  show ?thesis
  proof (cases "off = length ys")
    case True
    then show ?thesis using snoc by simp
  next
    case False
    with assms snoc have lt: "off < length ys" by simp
    have "add_mset (ys ! off) (mset (ys[off := y])) = add_mset y (mset ys)"
      using lt by (simp add: mset_update add_mset_commute)
    then show ?thesis using snoc lt by (simp add: nth_append list_update_append)
  qed
qed

lemma rand_Intn_pos:
  "0 < n \<Longrightarrow> rand_Intn src (int n) = Inr (src 0 mod n, \<lambda>i. src (Suc i))"
  by (simp add: rand_Intn_def)

lemma GetAndRemove_nonempty:
  assumes "files r \<noteq> []"
  shows "GetAndRemove r src =
     Inr (files r ! (src 0 mod length (files r)),
          r\<lparr>files := take (length (files r) - 1)
             ((files r)[src 0 mod length (files r) := files r ! (length (files r) - 1)])\<rparr>,
          \<lambda>i. src (Suc i))"
  using assms by (simp add: GetAndRemove_def rand_Intn_pos Let_def)

lemma GetAndRemove_empty: "files r = [] \<Longrightarrow> GetAndRemove r src = Inl Panic"
  by (simp add: GetAndRemove_def rand_Intn_def)

lemma AddAll_files: "files (AddAll r xs) = files r @ xs"
  by (induction xs arbitrary: r) (simp_all add: Add_def)

lemma Drain_all:
  "length (files r) = k \<Longrightarrow>
   \<exists>outs r' src'. Drain k r src = Inr (outs, r', src') \<and> files r' = [] \<and> mset outs = mset (files r)"
proof (induction k arbitrary: r src)
  case 0
  then show ?case by simp
next
  case (Suc k)
  then have ne: "files r \<noteq> []" by auto
  let ?off = "src 0 mod length (files r)"
  let ?r' = "r\<lparr>files := take (length (files r) - 1) ((files r)[?off := files r ! (length (files r) - 1)])\<rparr>"
  have off: "?off < length (files r)" using ne by simp
  have len: "length (files ?r') = k" using Suc.prems by simp
  from Suc.IH [OF len, of "\<lambda>i. src (Suc i)"] obtain outs r'' src''
    where d: "Drain k ?r' (\<lambda>i. src (Suc i)) = Inr (outs, r'', src'')"
      and e: "files r'' = []" and m: "mset outs = mset (files ?r')" by blast
  have "Drain (Suc k) r src = Inr (files r ! ?off # outs, r'', src'')"
    using d by (simp add: GetAndRemove_nonempty [OF ne])
  moreover have "mset (files r ! ?off # outs) = mset (files r)"
    using m swap_last_mset [OF off] by simp
  ultimately show ?case using e by blast
qed

text \<open>
  C4. On a queue of \<open>n > 0\<close> items \<open>GetAndRemove\<close> draws an index in \<open>[0, n)\<close>
  from the random source, returns the item in that slot, moves the last item into the slot
  and cuts the slice to \<open>n - 1\<close> items. Adding the items of any list \<open>xs\<close> to a new
  queue and removing \<open>length xs\<close> times returns, for every random source, a list with
  the same multiset as \<open>xs\<close> and leaves \<open>Len = 0\<close>; one more removal panics, as
  every removal from an empty queue does.
\<close>

theorem GetAndRemove_swap_with_last:
  "(files r \<noteq> [] \<longrightarrow>
      (\<exists>offset src'. rand_Intn src (Len r) = Inr (offset, src') \<and> offset < length (files r) \<and>
         GetAndRemove r src =
           Inr (files r ! offset,
                r\<lparr>files := butlast ((files r)[offset := last (files r)])\<rparr>, src') \<and>
         length (butlast ((files r)[offset := last (files r)])) = length (files r) - 1))
   \<and> (\<exists>outs q src'.
         Drain (length xs) (AddAll NewRandomQueue xs) src = Inr (outs, q, src') \<and>
         Len q = 0 \<and> mset outs = mset xs \<and> GetAndRemove q src' = Inl Panic)
   \<and> (files r = [] \<longrightarrow> GetAndRemove r src = Inl Panic)"
proof (intro conjI impI)
  assume ne: "files r \<noteq> []"
  let ?off = "src 0 mod length (files r)"
  have "rand_Intn src (Len r) = Inr (?off, \<lambda>i. src (Suc i))"
    using ne by (simp add: Len_def rand_Intn_pos)
  moreover have "?off < length (files r)" using ne by simp
  moreover have "take (length (files r) - 1) ((files r)[?off := files r ! (length (files r) - 1)])
      = butlast ((files r)[?off := last (files r)])"
    using ne by (simp add: butlast_conv_take last_conv_nth)
  ultimately show "\<exists>offset src'. rand_Intn src (Len r) = Inr (offset, src') \<and> offset < length (files r) \<and>
         GetAndRemove r src =
           Inr (files r ! offset,
                r\<lparr>files := butlast ((files r)[offset := last (files r)])\<rparr>, src') \<and>
         length (butlast ((files r)[offset := last (files r)])) = length (files r) - 1"
    using GetAndRemove_nonempty [OF ne, of src] by simp
next
  have "length (files (AddAll (NewRandomQueue :: 'b RandomQueue) xs)) = length xs"
    by (simp add: AddAll_files NewRandomQueue_def)
  from Drain_all [OF this, of src] obtain outs q src'
    where "Drain (length xs) (AddAll NewRandomQueue xs) src = Inr (outs, q, src')"
      and "files q = []" and "mset outs = mset (files (AddAll NewRandomQueue xs))" by blast
  then show "\<exists>outs q src'.
         Drain (length xs) (AddAll NewRandomQueue xs) src = Inr (outs, q, src') \<and>
         Len q = 0 \<and> mset outs = mset xs \<and> GetAndRemove q src' = Inl Panic"
    by (auto simp: Len_def AddAll_files NewRandomQueue_def GetAndRemove_empty)
next
  assume "files r = []"
  then show "GetAndRemove r src = Inl Panic" by (rule GetAndRemove_empty)
qed

theorem GetAndRemove_swap_with_last_witness:
  "files \<lparr>files = [10, 20, 30 :: int]\<rparr> \<noteq> [] \<and>
   GetAndRemove \<lparr>files = [10, 20, 30 :: int]\<rparr> (\<lambda>i. 4) = Inr (20, \<lparr>files = [10, 30]\<rparr>, \<lambda>i. 4) \<and>
   Drain (length [1, 2, 3 :: int]) (AddAll NewRandomQueue [1, 2, 3 :: int]) (\<lambda>i. 4)
     = Inr ([2, 1, 3], \<lparr>files = []\<rparr>, \<lambda>i. 4) \<and>
   files \<lparr>files = ([] :: int list)\<rparr> = [] \<and>
   GetAndRemove \<lparr>files = ([] :: int list)\<rparr> (\<lambda>i. 4) = Inl Panic"
proof -
  have d: "Drain (length [1, 2, 3 :: int]) (AddAll NewRandomQueue [1, 2, 3 :: int]) (\<lambda>i. 4)
     = Inr ([2, 1, 3], \<lparr>files = []\<rparr>, \<lambda>i. 4)"
    by (simp add: GetAndRemove_def rand_Intn_def Add_def NewRandomQueue_def)
  show ?thesis
    using GetAndRemove_swap_with_last [of "\<lparr>files = [10, 20, 30 :: int]\<rparr>" "\<lambda>i. 4" "[1, 2, 3 :: int]"]
      GetAndRemove_swap_with_last [of "\<lparr>files = ([] :: int list)\<rparr>" "\<lambda>i. 4" "[1, 2, 3 :: int]"]
    unfolding d
    by (simp add: rand_Intn_def Len_def)
qed


section \<open>PubSub: the loop of Unregister\<close>

lemma Unregister_loop_absent:
  "\<forall>k. i \<le> k \<and> k < length cl \<longrightarrow> cl ! k \<noteq> c \<Longrightarrow> Unregister_loop cl i c = cl"
proof (induction cl i c rule: Unregister_loop.induct)
  case (1 cl i c)
  show ?case
  proof (cases "i < length cl")
    case True
    with "1.prems" have ne: "cl ! i \<noteq> c" by simp
    have "Unregister_loop cl (Suc i) c = cl"
      using "1.IH" [OF True ne] "1.prems" by simp
    then show ?thesis using True ne by (subst Unregister_loop.simps) simp
  next
    case False
    then show ?thesis by (subst Unregister_loop.simps) simp
  qed
qed

lemma Unregister_loop_present:
  "\<exists>k. i \<le> k \<and> k < length cl \<and> cl ! k = c \<Longrightarrow>
   \<exists>j. i \<le> j \<and> j < length cl \<and> cl ! j = c \<and> (\<forall>k. i \<le> k \<and> k < j \<longrightarrow> cl ! k \<noteq> c) \<and>
       Unregister_loop cl i c = take (length cl - 1) (cl[j := cl ! (length cl - 1)])"
proof (induction cl i c rule: Unregister_loop.induct)
  case (1 cl i c)
  from "1.prems" have lt: "i < length cl" by auto
  show ?case
  proof (cases "cl ! i = c")
    case True
    have "Unregister_loop cl i c = take (length cl - 1) (cl[i := cl ! (length cl - 1)])"
      using lt True by (subst Unregister_loop.simps) simp
    with lt True show ?thesis by (intro exI [of _ i]) simp
  next
    case False
    from "1.prems" obtain k where k: "i \<le> k" "k < length cl" "cl ! k = c" by blast
    with False have "Suc i \<le> k" by (cases "k = i") auto
    with k have "\<exists>k. Suc i \<le> k \<and> k < length cl \<and> cl ! k = c" by blast
    from "1.IH" [OF lt False this] obtain j where j: "Suc i \<le> j" "j < length cl" "cl ! j = c"
      "\<forall>k. Suc i \<le> k \<and> k < j \<longrightarrow> cl ! k \<noteq> c"
      "Unregister_loop cl (Suc i) c = take (length cl - 1) (cl[j := cl ! (length cl - 1)])" by blast
    have eq: "Unregister_loop cl i c = Unregister_loop cl (Suc i) c"
      using lt False by (subst Unregister_loop.simps) simp
    have "\<forall>k. i \<le> k \<and> k < j \<longrightarrow> cl ! k \<noteq> c"
    proof (intro allI impI)
      fix k assume "i \<le> k \<and> k < j"
      then show "cl ! k \<noteq> c" using j(4) False by (cases "k = i") auto
    qed
    with j eq show ?thesis by (intro exI [of _ j]) simp
  qed
qed

lemma Unregister_loop_mset:
  assumes "c \<in> set cl"
  shows "mset (Unregister_loop cl 0 c) = mset cl - {#c#}"
proof -
  from assms obtain k where "k < length cl" "cl ! k = c" by (auto simp: in_set_conv_nth)
  then have "\<exists>k. 0 \<le> k \<and> k < length cl \<and> cl ! k = c" by blast
  from Unregister_loop_present [OF this] obtain j where j: "j < length cl" "cl ! j = c"
    "Unregister_loop cl 0 c = take (length cl - 1) (cl[j := cl ! (length cl - 1)])" by blast
  from swap_last_mset [OF j(1)] j show ?thesis by (metis add_mset_remove_trivial)
qed

lemma Unregister_loop_not_member:
  "c \<notin> set cl \<Longrightarrow> Unregister_loop cl 0 c = cl"
  by (rule Unregister_loop_absent) (auto simp: in_set_conv_nth)

lemma Unregister_loop_count:
  "count_list (Unregister_loop cl 0 c) d = count_list cl d - (if d = c \<and> c \<in> set cl then 1 else 0)"
proof (cases "c \<in> set cl")
  case True
  have "count (mset (Unregister_loop cl 0 c)) d = count (mset cl - {#c#}) d"
    by (simp add: Unregister_loop_mset [OF True])
  then show ?thesis using True by (simp add: count_mset)
next
  case False
  then show ?thesis by (simp add: Unregister_loop_not_member)
qed

lemma Unregister_loop_subset: "set (Unregister_loop cl 0 c) \<subseteq> set cl"
proof (cases "c \<in> set cl")
  case True
  have "set_mset (mset (Unregister_loop cl 0 c)) \<subseteq> set_mset (mset cl)"
    unfolding Unregister_loop_mset [OF True] by (meson in_diffD subsetI)
  then show ?thesis by simp
next
  case False
  then show ?thesis by (simp add: Unregister_loop_not_member)
qed

lemma Unregister_loop_distinct:
  assumes "distinct cl"
  shows "distinct (Unregister_loop cl 0 c)"
proof -
  have le: "count_list cl a \<le> 1" for a
    using assms by (metis count_mset distinct_count_atmost_1 le_numeral_extra(4) zero_le_one)
  have "count (mset (Unregister_loop cl 0 c)) a =
      (if a \<in> set (Unregister_loop cl 0 c) then 1 else 0)" for a
  proof (cases "a \<in> set (Unregister_loop cl 0 c)")
    case True
    then have "count_list (Unregister_loop cl 0 c) a \<noteq> 0" by (simp add: count_list_0_iff)
    moreover have "count_list (Unregister_loop cl 0 c) a \<le> 1"
      using le [of a] by (simp add: Unregister_loop_count)
    ultimately show ?thesis using True by (simp add: count_mset)
  next
    case False
    then show ?thesis by (simp add: count_mset count_list_0_iff)
  qed
  then show ?thesis by (simp only: distinct_count_atmost_1) simp
qed

section \<open>PubSub: what a broadcast delivers\<close>

lemma chan_send_Inr:
  "chan_send h v msg = Inr h1 \<longleftrightarrow>
     (\<exists>ch. cells h v = Some ch \<and> \<not> chan_closed ch \<and> length (chan_buf ch) < chan_cap ch \<and>
        h1 = h\<lparr>cells := (cells h)(v \<mapsto> ch\<lparr>chan_buf := chan_buf ch @ [msg]\<rparr>)\<rparr>)"
  by (auto simp: chan_send_def split: option.splits)

lemma send_all_cells:
  "send_all h vs msg = (None, h') \<Longrightarrow>
   cells h' a = map_option (deliver (count_list vs a) msg) (cells h a) \<and> fresh h' = fresh h"
proof (induction vs arbitrary: h)
  case Nil
  then show ?case by (cases "cells h a") (simp_all add: deliver_def)
next
  case (Cons v vs)
  from Cons.prems obtain h1 where s1: "chan_send h v msg = Inr h1" and r: "send_all h1 vs msg = (None, h')"
    by (auto split: sum.splits)
  from s1 obtain ch where ch: "cells h v = Some ch"
    and h1: "h1 = h\<lparr>cells := (cells h)(v \<mapsto> ch\<lparr>chan_buf := chan_buf ch @ [msg]\<rparr>)\<rparr>"
    unfolding chan_send_Inr by blast
  from Cons.IH [OF r] have ih: "cells h' a = map_option (deliver (count_list vs a) msg) (cells h1 a)"
    and fr: "fresh h' = fresh h1" by simp_all
  show ?case
  proof (cases "a = v")
    case True
    then show ?thesis using ih fr h1 ch by (simp add: deliver_def replicate_app_Cons_same)
  next
    case False
    then show ?thesis using ih fr h1 by simp
  qed
qed

lemma send_all_ok_iff:
  "(\<exists>h'. send_all h vs msg = (None, h')) \<longleftrightarrow>
   (\<forall>v\<in>set vs. \<exists>ch. cells h v = Some ch \<and> \<not> chan_closed ch \<and>
        length (chan_buf ch) + count_list vs v \<le> chan_cap ch)"
proof (induction vs arbitrary: h)
  case Nil
  then show ?case by simp
next
  case (Cons v vs)
  show ?case
  proof
    assume "\<exists>h'. send_all h (v # vs) msg = (None, h')"
    then obtain h' h1 where s1: "chan_send h v msg = Inr h1" and r: "send_all h1 vs msg = (None, h')"
      by (auto split: sum.splits)
    from s1 obtain ch where ch: "cells h v = Some ch" "\<not> chan_closed ch" "length (chan_buf ch) < chan_cap ch"
      and h1: "h1 = h\<lparr>cells := (cells h)(v \<mapsto> ch\<lparr>chan_buf := chan_buf ch @ [msg]\<rparr>)\<rparr>"
      unfolding chan_send_Inr by blast
    from r Cons.IH [of h1] have ih: "\<forall>u\<in>set vs. \<exists>c1. cells h1 u = Some c1 \<and> \<not> chan_closed c1 \<and>
        length (chan_buf c1) + count_list vs u \<le> chan_cap c1" by blast
    show "\<forall>u\<in>set (v # vs). \<exists>c1. cells h u = Some c1 \<and> \<not> chan_closed c1 \<and>
        length (chan_buf c1) + count_list (v # vs) u \<le> chan_cap c1"
    proof
      fix u assume u: "u \<in> set (v # vs)"
      show "\<exists>c1. cells h u = Some c1 \<and> \<not> chan_closed c1 \<and>
        length (chan_buf c1) + count_list (v # vs) u \<le> chan_cap c1"
      proof (cases "u = v")
        case True
        show ?thesis
        proof (cases "v \<in> set vs")
          case True
          with ih obtain c1 where "cells h1 v = Some c1"
            "length (chan_buf c1) + count_list vs v \<le> chan_cap c1" by blast
          with h1 have "length (chan_buf ch) + 1 + count_list vs v \<le> chan_cap ch" by auto
          with \<open>u = v\<close> ch show ?thesis by simp
        next
          case False
          then have "count_list vs v = 0" by (simp add: count_list_0_iff)
          with \<open>u = v\<close> ch show ?thesis by simp
        qed
      next
        case False
        with u have "u \<in> set vs" by simp
        with ih False h1 show ?thesis by auto
      qed
    qed
  next
    assume a: "\<forall>u\<in>set (v # vs). \<exists>c1. cells h u = Some c1 \<and> \<not> chan_closed c1 \<and>
        length (chan_buf c1) + count_list (v # vs) u \<le> chan_cap c1"
    then obtain ch where ch: "cells h v = Some ch" "\<not> chan_closed ch"
      "length (chan_buf ch) + count_list (v # vs) v \<le> chan_cap ch" by auto
    let ?h1 = "h\<lparr>cells := (cells h)(v \<mapsto> ch\<lparr>chan_buf := chan_buf ch @ [msg]\<rparr>)\<rparr>"
    have s1: "chan_send h v msg = Inr ?h1" using ch unfolding chan_send_Inr by auto
    have "\<forall>u\<in>set vs. \<exists>c1. cells ?h1 u = Some c1 \<and> \<not> chan_closed c1 \<and>
        length (chan_buf c1) + count_list vs u \<le> chan_cap c1"
    proof
      fix u assume u: "u \<in> set vs"
      show "\<exists>c1. cells ?h1 u = Some c1 \<and> \<not> chan_closed c1 \<and>
        length (chan_buf c1) + count_list vs u \<le> chan_cap c1"
      proof (cases "u = v")
        case True
        with ch show ?thesis by simp
      next
        case False
        with a u show ?thesis by auto
      qed
    qed
    with Cons.IH [of ?h1] obtain h' where "send_all ?h1 vs msg = (None, h')" by blast
    with s1 show "\<exists>h'. send_all h (v # vs) msg = (None, h')" by simp
  qed
qed


lemma deliver_0: "map_option (deliver 0 msg) x = x"
  by (cases x) (simp_all add: deliver_def)

lemma send_all_partial:
  "send_all h vs msg = (r, h') \<Longrightarrow>
   \<exists>k\<le>count_list vs a. cells h' a = map_option (deliver k msg) (cells h a)"
proof (induction vs arbitrary: h)
  case Nil
  then show ?case by (simp add: deliver_0)
next
  case (Cons v vs)
  show ?case
  proof (cases "chan_send h v msg")
    case (Inl e)
    with Cons.prems have "h' = h" by simp
    then show ?thesis by (intro exI [of _ 0]) (simp add: deliver_0)
  next
    case (Inr h1)
    with Cons.prems have r: "send_all h1 vs msg = (r, h')" by simp
    from Inr obtain ch where ch: "cells h v = Some ch"
      and h1: "h1 = h\<lparr>cells := (cells h)(v \<mapsto> ch\<lparr>chan_buf := chan_buf ch @ [msg]\<rparr>)\<rparr>"
      unfolding chan_send_Inr by blast
    from Cons.IH [OF r] obtain k where k: "k \<le> count_list vs a"
      "cells h' a = map_option (deliver k msg) (cells h1 a)" by blast
    show ?thesis
    proof (cases "a = v")
      case True
      have "cells h' a = map_option (deliver (Suc k) msg) (cells h a)"
        using k(2) True h1 ch by (simp add: deliver_def)
      moreover have "Suc k \<le> count_list (v # vs) a" using k(1) True by simp
      ultimately show ?thesis by blast
    next
      case False
      have "cells h' a = map_option (deliver k msg) (cells h a)"
        using k(2) False h1 by simp
      moreover have "k \<le> count_list (v # vs) a" using k(1) False by simp
      ultimately show ?thesis by blast
    qed
  qed
qed

section \<open>PubSub: Unregister and later broadcasts\<close>

lemma three_subscribers_eq:
  "three_subscribers =
     (\<lparr>clients = [0, 1, 2]\<rparr>,
      \<lparr>cells = (\<lambda>a. None)(0 \<mapsto> \<lparr>chan_buf = [], chan_cap = 1, chan_closed = False\<rparr>,
                            1 \<mapsto> \<lparr>chan_buf = [], chan_cap = 1, chan_closed = False\<rparr>,
                            2 \<mapsto> \<lparr>chan_buf = [], chan_cap = 1, chan_closed = False\<rparr>),
       fresh = 3\<rparr>)"
  by (simp add: three_subscribers_def Register_def make_chan_def NewPubSub_def empty_heap_def eval_nat_numeral)

lemma Broadcast_after_Unregister:
  assumes b: "Broadcast s h msg = (None, h1)"
  shows "\<exists>h2. Broadcast (fst (Unregister s h c)) (snd (Unregister s h c)) msg = (None, h2) \<and>
           (\<forall>d. d \<noteq> c \<longrightarrow> cells h2 d = cells h1 d)"
proof -
  let ?cl = "clients s" and ?cl' = "Unregister_loop (clients s) 0 c"
  from b have s1: "send_all h ?cl msg = (None, h1)" by (simp add: Broadcast_def)
  then have ok: "\<forall>v\<in>set ?cl. \<exists>ch. cells h v = Some ch \<and> \<not> chan_closed ch \<and>
        length (chan_buf ch) + count_list ?cl v \<le> chan_cap ch"
    using send_all_ok_iff [of h ?cl msg] by blast
  have "\<forall>v\<in>set ?cl'. \<exists>ch. cells h v = Some ch \<and> \<not> chan_closed ch \<and>
        length (chan_buf ch) + count_list ?cl' v \<le> chan_cap ch"
  proof
    fix v assume "v \<in> set ?cl'"
    then have "v \<in> set ?cl" using Unregister_loop_subset by blast
    with ok obtain ch where ch: "cells h v = Some ch" "\<not> chan_closed ch"
      "length (chan_buf ch) + count_list ?cl v \<le> chan_cap ch" by blast
    have "count_list ?cl' v \<le> count_list ?cl v" by (simp add: Unregister_loop_count)
    with ch show "\<exists>ch. cells h v = Some ch \<and> \<not> chan_closed ch \<and>
        length (chan_buf ch) + count_list ?cl' v \<le> chan_cap ch" by auto
  qed
  then obtain h2 where s2: "send_all h ?cl' msg = (None, h2)"
    using send_all_ok_iff [of h ?cl' msg] by blast
  have "cells h2 d = cells h1 d" if "d \<noteq> c" for d
    using send_all_cells [OF s1, of d] send_all_cells [OF s2, of d] that
    by (simp add: Unregister_loop_count)
  with s2 show ?thesis by (simp add: Broadcast_def Unregister_def)
qed

lemma Broadcast_delivers:
  assumes d: "distinct (clients s)" and r: "\<forall>v\<in>set (clients s). has_room h v"
  shows "\<exists>h'. Broadcast s h msg = (None, h') \<and> fresh h' = fresh h \<and>
     (\<forall>v\<in>set (clients s). contents h' v = contents h v @ [msg] \<and> is_open h' v) \<and>
     (\<forall>v. v \<notin> set (clients s) \<longrightarrow> cells h' v = cells h v)"
proof -
  have one: "count_list (clients s) v = 1" if "v \<in> set (clients s)" for v
    using d that by (metis count_mset distinct_count_atmost_1)
  have "\<forall>v\<in>set (clients s). \<exists>ch. cells h v = Some ch \<and> \<not> chan_closed ch \<and>
        length (chan_buf ch) + count_list (clients s) v \<le> chan_cap ch"
  proof
    fix v assume v: "v \<in> set (clients s)"
    with r have "has_room h v" by blast
    then show "\<exists>ch. cells h v = Some ch \<and> \<not> chan_closed ch \<and>
        length (chan_buf ch) + count_list (clients s) v \<le> chan_cap ch"
      using one [OF v] by (auto simp: has_room_def split: option.splits)
  qed
  then obtain h' where s: "send_all h (clients s) msg = (None, h')"
    using send_all_ok_iff [of h "clients s" msg] by blast
  have a: "contents h' v = contents h v @ [msg] \<and> is_open h' v" if v: "v \<in> set (clients s)" for v
  proof -
    from r v have "has_room h v" by blast
    then show ?thesis using send_all_cells [OF s, of v] one [OF v]
      by (auto simp: has_room_def contents_def is_open_def deliver_def split: option.splits)
  qed
  have b: "cells h' v = cells h v" if "v \<notin> set (clients s)" for v
  proof -
    from that have "count_list (clients s) v = 0" by (simp add: count_list_0_iff)
    then show ?thesis using send_all_cells [OF s, of v]
      by (cases "cells h v") (simp_all add: deliver_def)
  qed
  from s a b send_all_cells [OF s] show ?thesis by (simp add: Broadcast_def)
qed

lemma Broadcast_at_most_once:
  assumes "distinct (clients s)"
  shows "contents (snd (Broadcast s h msg)) d = contents h d \<or>
         contents (snd (Broadcast s h msg)) d = contents h d @ [msg]"
    and "d \<notin> set (clients s) \<Longrightarrow> cells (snd (Broadcast s h msg)) d = cells h d"
proof -
  obtain r h' where b: "send_all h (clients s) msg = (r, h')" by (cases "send_all h (clients s) msg")
  from send_all_partial [OF b, of d] obtain k where k: "k \<le> count_list (clients s) d"
    "cells h' d = map_option (deliver k msg) (cells h d)" by blast
  have le: "count_list (clients s) d \<le> 1"
    using assms by (metis count_mset distinct_count_atmost_1 le_numeral_extra(4) zero_le_one)
  have h': "snd (Broadcast s h msg) = h'" using b by (simp add: Broadcast_def)
  from k(1) le have "k = 0 \<or> k = 1" by auto
  then show "contents (snd (Broadcast s h msg)) d = contents h d \<or>
         contents (snd (Broadcast s h msg)) d = contents h d @ [msg]"
  proof
    assume "k = 0"
    then have "cells h' d = cells h d" using k(2) by (simp add: deliver_0)
    then show ?thesis by (simp add: h' contents_def)
  next
    assume "k = 1"
    then have "contents h' d = contents h d \<or> contents h' d = contents h d @ [msg]"
      using k(2) by (cases "cells h d") (simp_all add: contents_def deliver_def)
    then show ?thesis by (simp add: h')
  qed
  assume "d \<notin> set (clients s)"
  then have "count_list (clients s) d = 0" by (simp add: count_list_0_iff)
  with k have "cells h' d = cells h d" by (simp add: deliver_0)
  then show "cells (snd (Broadcast s h msg)) d = cells h d" by (simp add: h')
qed

lemma stalled_third_eq:
  "stalled_third =
     (\<lparr>clients = [0, 1, 2]\<rparr>,
      \<lparr>cells = (\<lambda>a. None)(0 \<mapsto> \<lparr>chan_buf = [], chan_cap = 1, chan_closed = False\<rparr>,
                            1 \<mapsto> \<lparr>chan_buf = [], chan_cap = 1, chan_closed = False\<rparr>,
                            2 \<mapsto> \<lparr>chan_buf = [''one''], chan_cap = 1, chan_closed = False\<rparr>),
       fresh = 3\<rparr>)"
  by (simp add: stalled_third_def three_subscribers_eq Broadcast_def chan_send_def chan_recv_def
      fun_upd_twist)

text \<open>
  C7, as the code has it. Unregistering a channel that is not in the client list returns
  (it cannot panic: the loop only compares) and leaves the list and the store as they
  were. Unregistering a registered channel overwrites the first slot that holds it with
  the last slot and cuts the list by one, which removes exactly one occurrence of that
  channel. For a later broadcast that completes, every other channel is given what it
  would have been given without the call: if the broadcast completed with the channel
  registered, it completes without it and every other channel ends the same; and with
  distinct clients that all have room, each channel still registered is sent the message
  once and the unregistered one nothing. A broadcast that stops at a stalled channel is
  not covered by this, since the swap changes the order of the sends; for it, as for
  every broadcast after the call over distinct clients, no channel is sent the message
  more than once and the unregistered channel is sent nothing.
\<close>

theorem Unregister_swap_with_last:
  "(c \<notin> set (clients s) \<longrightarrow> Unregister s h c = (s, h)) \<and>
   (c \<in> set (clients s) \<longrightarrow>
      (\<exists>j<length (clients s). clients s ! j = c \<and> (\<forall>k<j. clients s ! k \<noteq> c) \<and>
         Unregister s h c = (s\<lparr>clients := butlast ((clients s)[j := last (clients s)])\<rparr>, h)) \<and>
      mset (clients (fst (Unregister s h c))) = mset (clients s) - {#c#}) \<and>
   (\<forall>h1. Broadcast s h msg = (None, h1) \<longrightarrow>
      (\<exists>h2. Broadcast (fst (Unregister s h c)) (snd (Unregister s h c)) msg = (None, h2) \<and>
         (\<forall>d. d \<noteq> c \<longrightarrow> cells h2 d = cells h1 d))) \<and>
   (distinct (clients s) \<and> (\<forall>d\<in>set (clients s) - {c}. has_room h d) \<longrightarrow>
      (\<exists>h2. Broadcast (fst (Unregister s h c)) (snd (Unregister s h c)) msg = (None, h2) \<and>
         (\<forall>d\<in>set (clients s) - {c}. contents h2 d = contents h d @ [msg]) \<and>
         cells h2 c = cells h c)) \<and>
   (distinct (clients s) \<longrightarrow>
      (\<forall>d. contents (snd (Broadcast (fst (Unregister s h c)) (snd (Unregister s h c)) msg)) d
             = contents h d \<or>
           contents (snd (Broadcast (fst (Unregister s h c)) (snd (Unregister s h c)) msg)) d
             = contents h d @ [msg]) \<and>
      (c \<in> set (clients s) \<longrightarrow>
         cells (snd (Broadcast (fst (Unregister s h c)) (snd (Unregister s h c)) msg)) c
           = cells h c))"
proof (intro conjI impI allI)
  assume "c \<notin> set (clients s)"
  then show "Unregister s h c = (s, h)"
    by (simp add: Unregister_def Unregister_loop_not_member)
next
  assume m: "c \<in> set (clients s)"
  then obtain k where "k < length (clients s)" "clients s ! k = c" by (auto simp: in_set_conv_nth)
  then have "\<exists>k. 0 \<le> k \<and> k < length (clients s) \<and> clients s ! k = c" by blast
  from Unregister_loop_present [OF this] obtain j where j: "j < length (clients s)" "clients s ! j = c"
    "\<forall>k. 0 \<le> k \<and> k < j \<longrightarrow> clients s ! k \<noteq> c"
    "Unregister_loop (clients s) 0 c =
       take (length (clients s) - 1) ((clients s)[j := clients s ! (length (clients s) - 1)])" by blast
  from j(1) have ne: "clients s \<noteq> []" by auto
  have "take (length (clients s) - 1) ((clients s)[j := clients s ! (length (clients s) - 1)])
      = butlast ((clients s)[j := last (clients s)])"
    using ne by (simp add: butlast_conv_take last_conv_nth)
  with j show "\<exists>j<length (clients s). clients s ! j = c \<and> (\<forall>k<j. clients s ! k \<noteq> c) \<and>
         Unregister s h c = (s\<lparr>clients := butlast ((clients s)[j := last (clients s)])\<rparr>, h)"
    by (intro exI [of _ j]) (simp add: Unregister_def)
  show "mset (clients (fst (Unregister s h c))) = mset (clients s) - {#c#}"
    by (simp add: Unregister_def Unregister_loop_mset [OF m])
next
  fix h1 assume "Broadcast s h msg = (None, h1)"
  then show "\<exists>h2. Broadcast (fst (Unregister s h c)) (snd (Unregister s h c)) msg = (None, h2) \<and>
         (\<forall>d. d \<noteq> c \<longrightarrow> cells h2 d = cells h1 d)"
    by (rule Broadcast_after_Unregister)
next
  assume a: "distinct (clients s) \<and> (\<forall>d\<in>set (clients s) - {c}. has_room h d)"
  let ?s' = "fst (Unregister s h c)"
  have cl': "clients ?s' = Unregister_loop (clients s) 0 c" by (simp add: Unregister_def)
  have dist: "distinct (clients ?s')" using a by (simp add: cl' Unregister_loop_distinct)
  have mem: "set (clients ?s') = set (clients s) - {c}"
  proof (cases "c \<in> set (clients s)")
    case True
    have "d \<in> set (clients ?s') \<longleftrightarrow> d \<in> set (clients s) - {c}" for d
    proof -
      have "count_list (clients s) d \<le> 1"
        using a by (metis count_mset distinct_count_atmost_1 le_numeral_extra(4) zero_le_one)
      moreover have "d \<in> set (clients ?s') \<longleftrightarrow> count_list (clients ?s') d \<noteq> 0"
        by (simp add: count_list_0_iff)
      moreover have "d \<in> set (clients s) \<longleftrightarrow> count_list (clients s) d \<noteq> 0"
        by (simp add: count_list_0_iff)
      ultimately show ?thesis using True by (auto simp: cl' Unregister_loop_count)
    qed
    then show ?thesis by blast
  next
    case False
    then show ?thesis by (simp add: cl' Unregister_loop_not_member)
  qed
  have "\<forall>v\<in>set (clients ?s'). has_room h v" using a mem by simp
  from Broadcast_delivers [OF dist this, of msg] obtain h2 where
    h2: "Broadcast ?s' h msg = (None, h2)"
      "\<forall>v\<in>set (clients ?s'). contents h2 v = contents h v @ [msg] \<and> is_open h2 v"
      "\<forall>v. v \<notin> set (clients ?s') \<longrightarrow> cells h2 v = cells h v" by blast
  then show "\<exists>h2. Broadcast (fst (Unregister s h c)) (snd (Unregister s h c)) msg = (None, h2) \<and>
         (\<forall>d\<in>set (clients s) - {c}. contents h2 d = contents h d @ [msg]) \<and>
         cells h2 c = cells h c"
    using mem by (intro exI [of _ h2]) (simp add: Unregister_def)
next
  fix d
  assume "distinct (clients s)"
  then have "distinct (clients (fst (Unregister s h c)))"
    by (simp add: Unregister_def Unregister_loop_distinct)
  from Broadcast_at_most_once(1) [OF this, of h msg d]
  show "contents (snd (Broadcast (fst (Unregister s h c)) (snd (Unregister s h c)) msg)) d
             = contents h d \<or>
        contents (snd (Broadcast (fst (Unregister s h c)) (snd (Unregister s h c)) msg)) d
             = contents h d @ [msg]"
    by (simp add: Unregister_def)
next
  assume d: "distinct (clients s)" and m: "c \<in> set (clients s)"
  have dist: "distinct (clients (fst (Unregister s h c)))"
    using d by (simp add: Unregister_def Unregister_loop_distinct)
  have "count_list (clients s) c \<le> 1"
    using d by (metis count_mset distinct_count_atmost_1 le_numeral_extra(4) zero_le_one)
  then have "count_list (Unregister_loop (clients s) 0 c) c = 0"
    using m by (simp add: Unregister_loop_count)
  then have "c \<notin> set (clients (fst (Unregister s h c)))"
    by (simp add: Unregister_def count_list_0_iff)
  from Broadcast_at_most_once(2) [OF dist this, of h msg]
  show "cells (snd (Broadcast (fst (Unregister s h c)) (snd (Unregister s h c)) msg)) c
           = cells h c"
    by (simp add: Unregister_def)
qed

theorem Unregister_swap_with_last_witness:
  "7 \<notin> set (clients (fst three_subscribers)) \<and>
   Unregister (fst three_subscribers) (snd three_subscribers) 7 = three_subscribers \<and>
   1 \<in> set (clients (fst three_subscribers)) \<and>
   clients (fst (Unregister (fst three_subscribers) (snd three_subscribers) 1)) = [0, 2] \<and>
   (\<exists>h1. Broadcast (fst three_subscribers) (snd three_subscribers) ''one'' = (None, h1)) \<and>
   distinct (clients (fst three_subscribers)) \<and>
   has_room (snd three_subscribers) 0 \<and> has_room (snd three_subscribers) 2 \<and>
   (\<exists>h2. Broadcast (fst (Unregister (fst three_subscribers) (snd three_subscribers) 1))
            (snd (Unregister (fst three_subscribers) (snd three_subscribers) 1)) ''one'' = (None, h2) \<and>
         contents h2 0 = [''one''] \<and> contents h2 2 = [''one''] \<and> contents h2 1 = [])"
proof -
  let ?s = "fst three_subscribers" and ?h = "snd three_subscribers"
  have cl: "clients ?s = [0, 1, 2]" by (simp add: three_subscribers_eq)
  have a: "7 \<notin> set (clients ?s)" "1 \<in> set (clients ?s)" "distinct (clients ?s)"
    by (simp_all add: cl)
  have r: "\<forall>d\<in>set (clients ?s) - {1}. has_room ?h d"
    by (auto simp: three_subscribers_eq has_room_def)
  have b: "\<exists>h1. Broadcast ?s ?h ''one'' = (None, h1)"
    by (simp add: three_subscribers_eq Broadcast_def chan_send_def)
  have c0: "contents ?h 0 = []" "contents ?h 2 = []" "contents ?h 1 = []"
    by (simp_all add: three_subscribers_eq contents_def)
  have u: "clients (fst (Unregister ?s ?h 1)) = [0, 2]"
    using Unregister_swap_with_last [of 1 ?s ?h "''one''"] a
    by (auto simp: cl less_Suc_eq nth_Cons' split: if_splits)
  have n: "Unregister ?s ?h 7 = three_subscribers"
    using Unregister_swap_with_last [of 7 ?s ?h "''one''"] a(1) by simp
  have "distinct (clients ?s) \<and> (\<forall>d\<in>set (clients ?s) - {1}. has_room ?h d)"
    using a r by simp
  with Unregister_swap_with_last [of 1 ?s ?h "''one''"] obtain h2 where
    h2: "Broadcast (fst (Unregister ?s ?h 1)) (snd (Unregister ?s ?h 1)) ''one'' = (None, h2)"
      "\<forall>d\<in>set (clients ?s) - {1}. contents h2 d = contents ?h d @ [''one'']"
      "cells h2 1 = cells ?h 1" by blast
  from h2(2) have "contents h2 0 = [''one'']" "contents h2 2 = [''one'']"
    by (simp_all add: cl c0)
  moreover from h2(3) c0(3) have "contents h2 1 = []" by (simp add: contents_def)
  moreover have "has_room ?h 0" "has_room ?h 2"
    by (simp_all add: three_subscribers_eq has_room_def)
  ultimately show ?thesis using a b u n h2(1) by blast
qed

text \<open>
  C7 as stated fails when a subscriber is stalled. The third of three subscribers has
  not received, so its channel is full. A broadcast over the clients 0, 1, 2 sends to 0
  and to 1 and then waits at 2: subscriber 1 has the message. After \<open>Unregister\<close> of
  channel 0 the clients are 2, 1: the same broadcast waits at 2 at once, and subscriber 1,
  still registered, has nothing.
\<close>

theorem Unregister_reorders_stalled_broadcast:
  "clients (fst stalled_third) = [0, 1, 2] \<and>
   fst (Broadcast (fst stalled_third) (snd stalled_third) ''two'') = Some Blocked \<and>
   contents (snd (Broadcast (fst stalled_third) (snd stalled_third) ''two'')) 1 = [''two''] \<and>
   clients (fst (Unregister (fst stalled_third) (snd stalled_third) 0)) = [2, 1] \<and>
   fst (Broadcast (fst (Unregister (fst stalled_third) (snd stalled_third) 0))
          (snd (Unregister (fst stalled_third) (snd stalled_third) 0)) ''two'') = Some Blocked \<and>
   contents (snd (Broadcast (fst (Unregister (fst stalled_third) (snd stalled_third) 0))
          (snd (Unregister (fst stalled_third) (snd stalled_third) 0)) ''two'')) 1 = []"
  by (simp add: stalled_third_eq Unregister_def Unregister_loop.simps Broadcast_def
      chan_send_def contents_def)

section \<open>PubSub: Unregister and the channel itself\<close>

lemma Unregister_loop_part_005_eq:
  "Unregister_loop_part_005 cl h i c =
     (if \<exists>k. i \<le> k \<and> k < length cl \<and> cl ! k = c
      then (case chan_close h c of
              Inl e \<Rightarrow> Inl e
            | Inr h' \<Rightarrow> Inr (Unregister_loop cl i c, h'))
      else Inr (cl, h))"
proof (induction cl i c rule: Unregister_loop.induct)
  case (1 cl i c)
  show ?case
  proof (cases "i < length cl")
    case False
    then show ?thesis by (subst Unregister_loop_part_005.simps) auto
  next
    case lt: True
    show ?thesis
    proof (cases "cl ! i = c")
      case True
      then have "\<exists>k. i \<le> k \<and> k < length cl \<and> cl ! k = c" using lt by blast
      then show ?thesis using lt True
        by (subst Unregister_loop_part_005.simps, subst Unregister_loop.simps) simp
    next
      case False
      have iff: "(\<exists>k. i \<le> k \<and> k < length cl \<and> cl ! k = c) \<longleftrightarrow>
                 (\<exists>k. Suc i \<le> k \<and> k < length cl \<and> cl ! k = c)"
        using False by (metis Suc_leD Suc_leI le_neq_implies_less)
      have e1: "Unregister_loop_part_005 cl h i c = Unregister_loop_part_005 cl h (Suc i) c"
        using lt False by (subst Unregister_loop_part_005.simps) simp
      have e2: "Unregister_loop cl i c = Unregister_loop cl (Suc i) c"
        using lt False by (subst Unregister_loop.simps) simp
      show ?thesis by (simp only: e1 e2 iff "1.IH" [OF lt False])
    qed
  qed
qed

lemma Unregister_loop_part_005_0:
  "Unregister_loop_part_005 cl h 0 c =
     (if c \<in> set cl
      then (case chan_close h c of
              Inl e \<Rightarrow> Inl e
            | Inr h' \<Rightarrow> Inr (Unregister_loop cl 0 c, h'))
      else Inr (cl, h))"
proof -
  have "(\<exists>k. 0 \<le> k \<and> k < length cl \<and> cl ! k = c) \<longleftrightarrow> c \<in> set cl"
    by (auto simp: in_set_conv_nth)
  then show ?thesis by (simp only: Unregister_loop_part_005_eq)
qed

lemma chan_close_open:
  "is_open h c \<Longrightarrow> \<exists>ch. cells h c = Some ch \<and>
     chan_close h c = Inr (h\<lparr>cells := (cells h)(c \<mapsto> ch\<lparr>chan_closed := True\<rparr>)\<rparr>)"
  by (auto simp: is_open_def chan_close_def split: option.splits)

text \<open>
  C6, as the two sources have it. \<open>Unregister\<close> of the pubsub source in email.go
  performs no channel operation: the store is returned as it was, so a channel that was
  open is open after the call, and one occurrence of a registered channel is gone from
  the client list. \<open>Unregister\<close> of the second copy (part\_005) removes the same slot,
  but closes the channel first: for a registered open channel it returns with that
  channel closed and every other channel untouched; for a channel that is not registered
  it changes nothing.
\<close>

theorem Unregister_keeps_channel_open:
  "snd (Unregister s h c) = h \<and>
   (is_open h c \<longrightarrow> is_open (snd (Unregister s h c)) c) \<and>
   (c \<in> set (clients s) \<longrightarrow>
      mset (clients (fst (Unregister s h c))) = mset (clients s) - {#c#}) \<and>
   (c \<in> set (clients s) \<and> is_open h c \<longrightarrow>
      (\<exists>s' h'. Unregister_part_005 s h c = Inr (s', h') \<and>
         clients s' = clients (fst (Unregister s h c)) \<and>
         \<not> is_open h' c \<and> (\<forall>d. d \<noteq> c \<longrightarrow> cells h' d = cells h d))) \<and>
   (c \<notin> set (clients s) \<longrightarrow> Unregister_part_005 s h c = Inr (s, h))"
proof (intro conjI impI)
  show "snd (Unregister s h c) = h" by (simp add: Unregister_def)
  then show "is_open (snd (Unregister s h c)) c" if "is_open h c" using that by simp
next
  assume "c \<in> set (clients s)"
  then show "mset (clients (fst (Unregister s h c))) = mset (clients s) - {#c#}"
    by (simp add: Unregister_def Unregister_loop_mset)
next
  assume a: "c \<in> set (clients s) \<and> is_open h c"
  then have ex: "c \<in> set (clients s)" by simp
  from a chan_close_open obtain ch where ch: "cells h c = Some ch"
    "chan_close h c = Inr (h\<lparr>cells := (cells h)(c \<mapsto> ch\<lparr>chan_closed := True\<rparr>)\<rparr>)" by blast
  let ?h' = "h\<lparr>cells := (cells h)(c \<mapsto> ch\<lparr>chan_closed := True\<rparr>)\<rparr>"
  have "Unregister_part_005 s h c = Inr (s\<lparr>clients := Unregister_loop (clients s) 0 c\<rparr>, ?h')"
    using ex ch by (simp add: Unregister_part_005_def Unregister_loop_part_005_0)
  moreover have "\<not> is_open ?h' c" by (simp add: is_open_def)
  moreover have "\<forall>d. d \<noteq> c \<longrightarrow> cells ?h' d = cells h d" by simp
  ultimately show "\<exists>s' h'. Unregister_part_005 s h c = Inr (s', h') \<and>
         clients s' = clients (fst (Unregister s h c)) \<and>
         \<not> is_open h' c \<and> (\<forall>d. d \<noteq> c \<longrightarrow> cells h' d = cells h d)"
    by (simp add: Unregister_def)
next
  assume "c \<notin> set (clients s)"
  then show "Unregister_part_005 s h c = Inr (s, h)"
    by (simp add: Unregister_part_005_def Unregister_loop_part_005_0)
qed

theorem Unregister_keeps_channel_open_witness:
  "is_open (snd three_subscribers) 1 \<and> 1 \<in> set (clients (fst three_subscribers)) \<and>
   5 \<notin> set (clients (fst three_subscribers)) \<and>
   is_open (snd (Unregister (fst three_subscribers) (snd three_subscribers) 1)) 1 \<and>
   mset (clients (fst (Unregister (fst three_subscribers) (snd three_subscribers) 1))) = {#0, 2#} \<and>
   (\<exists>s' h'. Unregister_part_005 (fst three_subscribers) (snd three_subscribers) 1 = Inr (s', h') \<and>
      \<not> is_open h' 1) \<and>
   Unregister_part_005 (fst three_subscribers) (snd three_subscribers) 5 = Inr three_subscribers"
proof -
  let ?s = "fst three_subscribers" and ?h = "snd three_subscribers"
  have a: "is_open ?h 1" "1 \<in> set (clients ?s)" "5 \<notin> set (clients ?s)"
    by (simp_all add: three_subscribers_eq is_open_def)
  have m: "mset (clients ?s) - {#1#} = {#0, 2#}" by (simp add: three_subscribers_eq)
  show ?thesis
    using Unregister_keeps_channel_open [of ?s ?h 1] Unregister_keeps_channel_open [of ?s ?h 5] a m
    by auto
qed

text \<open>
  C6 as stated fails for the copy in part\_005: the second of the three subscribers of
  pubsub\_test.go is registered and open, and after \<open>Unregister\<close> of that copy has
  returned it is closed.
\<close>

theorem Unregister_part_005_closes_channel:
  "1 \<in> set (clients (fst three_subscribers)) \<and> is_open (snd three_subscribers) 1 \<and>
   \<not> isl (Unregister_part_005 (fst three_subscribers) (snd three_subscribers) 1) \<and>
   \<not> is_open (snd (projr (Unregister_part_005 (fst three_subscribers) (snd three_subscribers) 1))) 1"
  by (simp add: three_subscribers_eq is_open_def Unregister_part_005_def
      Unregister_loop_part_005.simps chan_close_def)


section \<open>Debouncer: GetValue and a failing fetcher\<close>

text \<open>
  C9. \<open>GetValue\<close> of the plain \<open>Debouncer\<close> returns a nil error whatever happens.
  When the timeout has passed and the fetcher returns an error, the call returns the
  cached value it had, and the debouncer is left exactly as it was (cached value and
  timeout included); the error appears nowhere in what the call returns.
\<close>

theorem Debouncer_GetValue_discards_error:
  "snd (fst (Debouncer_GetValue d w)) = None \<and>
   (Debouncer.timeOut d < now w \<and> snd (fst (Debouncer.fetcher d w)) \<noteq> None \<longrightarrow>
      Debouncer_GetValue d w = ((Debouncer.lastValue d, None), d, snd (Debouncer.fetcher d w)))"
  by (simp add: Debouncer_GetValue_def Let_def split: prod.splits)

theorem Debouncer_GetValue_discards_error_witness:
  "Debouncer.timeOut \<lparr>fetcher = test_fetcher, lastValue = 1, timeOut = 30, delay = 30 * Millisecond\<rparr>
     < now \<lparr>now = 35, fstate = \<lparr>calls = 1, val = 1, fail = True\<rparr>\<rparr> \<and>
   snd (fst (test_fetcher \<lparr>now = 35, fstate = \<lparr>calls = 1, val = 1, fail = True\<rparr>\<rparr>)) \<noteq> None \<and>
   Debouncer_GetValue \<lparr>fetcher = test_fetcher, lastValue = 1, timeOut = 30, delay = 30 * Millisecond\<rparr>
       \<lparr>now = 35, fstate = \<lparr>calls = 1, val = 1, fail = True\<rparr>\<rparr>
     = ((1, None),
        \<lparr>fetcher = test_fetcher, lastValue = 1, timeOut = 30, delay = 30 * Millisecond\<rparr>,
        \<lparr>now = 35, fstate = \<lparr>calls = 2, val = 1, fail = True\<rparr>\<rparr>)"
  using Debouncer_GetValue_discards_error
    [of "\<lparr>fetcher = test_fetcher, lastValue = 1, timeOut = 30, delay = 30 * Millisecond\<rparr>"
        "\<lparr>now = 35, fstate = \<lparr>calls = 1, val = 1, fail = True\<rparr>\<rparr>"]
  by (simp add: test_fetcher_def)

section \<open>PubSubDebouncer: GetValue\<close>

text \<open>
  C1 on the run of debounce\_test.go: a debouncer made with a delay of 120 ms fetches 1 on
  its first \<open>GetValue\<close>; 130 ms later the fetcher fails, returning 0 and an error. The
  call assigns the fetcher's value to the cached value before it looks at the error: it
  returns 0 with the error, and the cached value is 0 and no longer 1. The timeout is
  not advanced.
\<close>

theorem PubSubDebouncer_GetValue_error_overwrites:
  "NewPubSubDebouncer 0 (120 * Millisecond) test_fetcher =
     Inr \<lparr>lastValue = 0, listeners = NewPubSub, delay = 120 * Millisecond, timeOut = 0,
          fetcherFunc = test_fetcher\<rparr> \<and>
   PubSubDebouncer_GetValue
     \<lparr>lastValue = 0, listeners = NewPubSub, delay = 120 * Millisecond, timeOut = 0,
      fetcherFunc = test_fetcher\<rparr>
     \<lparr>now = 100, fstate = \<lparr>calls = 0, val = 0, fail = False\<rparr>\<rparr>
   = ((1, None),
      \<lparr>lastValue = 1, listeners = NewPubSub, delay = 120 * Millisecond, timeOut = 120000100,
       fetcherFunc = test_fetcher\<rparr>,
      \<lparr>now = 100, fstate = \<lparr>calls = 1, val = 1, fail = False\<rparr>\<rparr>) \<and>
   PubSubDebouncer_GetValue
     \<lparr>lastValue = 1, listeners = NewPubSub, delay = 120 * Millisecond, timeOut = 120000100,
      fetcherFunc = test_fetcher\<rparr>
     \<lparr>now = 130000100, fstate = \<lparr>calls = 1, val = 1, fail = True\<rparr>\<rparr>
   = ((0, Some ''fail''),
      \<lparr>lastValue = 0, listeners = NewPubSub, delay = 120 * Millisecond, timeOut = 120000100,
       fetcherFunc = test_fetcher\<rparr>,
      \<lparr>now = 130000100, fstate = \<lparr>calls = 2, val = 1, fail = True\<rparr>\<rparr>)"
  by (simp add: NewPubSubDebouncer_def PubSubDebouncer_GetValue_def test_fetcher_def Millisecond_def)

lemma test_fetcher_ok:
  "\<not> fail (fstate w) \<Longrightarrow>
   test_fetcher w =
     ((val (fstate w) + 1, None),
      w\<lparr>fstate := (fstate w)\<lparr>calls := calls (fstate w) + 1, val := val (fstate w) + 1\<rparr>\<rparr>)"
  by (simp add: test_fetcher_def Let_def)

lemma debounce_scenario_eq:
  assumes "timeOut d0 = 0" "fetcherFunc d0 = test_fetcher" "0 < t0" "0 \<le> s1" "s1 \<le> delay d0"
    "delay d0 < s1 + s2"
  shows "debounce_scenario d0 t0 s1 s2 = [((1, None), 1), ((1, None), 1), ((2, None), 2)]"
  using assms
  by (simp add: debounce_scenario_def PubSubDebouncer_GetValue_def test_fetcher_ok sleep_def)

text \<open>
  C3, as the code has it. \<open>GetValue\<close> runs the fetcher exactly when the clock is
  strictly after the deadline (\<open>time.Now().After\<close>): then the world after the call is
  the world the fetcher left, and a fetch without error stores the value and sets the
  deadline to the time after the fetch plus \<open>delay\<close>. At or before the deadline the call
  returns the cached value and a nil error and changes neither debouncer nor world. With
  a delay of 50 ms and the counting fetcher, a first call at any positive time returns
  \<open>(1, nil)\<close>, a call 20 ms later \<open>(1, nil)\<close> with the fetcher still called once, and
  a call 40 ms after that \<open>(2, nil)\<close>; the debouncer of this example is built directly,
  since the constructor accepts no delay below 100 ms, and a constructed debouncer shows
  the same pattern for every delay it accepts.
\<close>

theorem PubSubDebouncer_GetValue_refresh:
  "(timeOut d < now w \<longrightarrow>
      snd (snd (PubSubDebouncer_GetValue d w)) = snd (fetcherFunc d w)) \<and>
   (timeOut d < now w \<and> fetcherFunc d w = ((v, None), w') \<longrightarrow>
      PubSubDebouncer_GetValue d w = ((v, None), d\<lparr>lastValue := v, timeOut := now w' + delay d\<rparr>, w')) \<and>
   (now w \<le> timeOut d \<longrightarrow> PubSubDebouncer_GetValue d w = ((lastValue d, None), d, w)) \<and>
   (0 < t0 \<longrightarrow>
      debounce_scenario
        \<lparr>lastValue = 0, listeners = NewPubSub, delay = 50 * Millisecond, timeOut = 0,
         fetcherFunc = test_fetcher\<rparr> t0 (20 * Millisecond) (40 * Millisecond)
      = [((1, None), 1), ((1, None), 1), ((2, None), 2)]) \<and>
   (0 < t0 \<and> 100 * Millisecond \<le> dly \<and> 0 \<le> s1 \<and> s1 \<le> dly \<and> dly < s1 + s2 \<longrightarrow>
      \<not> isl (NewPubSubDebouncer 0 dly test_fetcher) \<and>
      debounce_scenario (projr (NewPubSubDebouncer 0 dly test_fetcher)) t0 s1 s2
      = [((1, None), 1), ((1, None), 1), ((2, None), 2)])"
proof (intro conjI impI)
  assume "timeOut d < now w"
  then show "snd (snd (PubSubDebouncer_GetValue d w)) = snd (fetcherFunc d w)"
    by (simp add: PubSubDebouncer_GetValue_def Let_def split: prod.splits)
next
  assume "timeOut d < now w \<and> fetcherFunc d w = ((v, None), w')"
  then show "PubSubDebouncer_GetValue d w =
      ((v, None), d\<lparr>lastValue := v, timeOut := now w' + delay d\<rparr>, w')"
    by (simp add: PubSubDebouncer_GetValue_def)
next
  assume "now w \<le> timeOut d"
  then show "PubSubDebouncer_GetValue d w = ((lastValue d, None), d, w)"
    by (simp add: PubSubDebouncer_GetValue_def)
next
  assume "0 < t0"
  then show "debounce_scenario
        \<lparr>lastValue = 0, listeners = NewPubSub, delay = 50 * Millisecond, timeOut = 0,
         fetcherFunc = test_fetcher\<rparr> t0 (20 * Millisecond) (40 * Millisecond)
      = [((1, None), 1), ((1, None), 1), ((2, None), 2)]"
    by (intro debounce_scenario_eq) (simp_all add: Millisecond_def)
next
  assume a: "0 < t0 \<and> 100 * Millisecond \<le> dly \<and> 0 \<le> s1 \<and> s1 \<le> dly \<and> dly < s1 + s2"
  then have n: "NewPubSubDebouncer 0 dly test_fetcher =
      Inr \<lparr>lastValue = 0, listeners = NewPubSub, delay = dly, timeOut = 0,
           fetcherFunc = test_fetcher\<rparr>"
    by (simp add: NewPubSubDebouncer_def)
  then show "\<not> isl (NewPubSubDebouncer 0 dly test_fetcher)" by simp
  show "debounce_scenario (projr (NewPubSubDebouncer 0 dly test_fetcher)) t0 s1 s2
      = [((1, None), 1), ((1, None), 1), ((2, None), 2)]"
    unfolding n using a by (intro debounce_scenario_eq) simp_all
qed

theorem PubSubDebouncer_GetValue_refresh_witness:
  "timeOut \<lparr>lastValue = 0, listeners = NewPubSub, delay = 100 * Millisecond, timeOut = 0,
            fetcherFunc = test_fetcher\<rparr>
     < now \<lparr>now = 7, fstate = \<lparr>calls = 0, val = 0, fail = False\<rparr>\<rparr> \<and>
   PubSubDebouncer_GetValue
     \<lparr>lastValue = 0, listeners = NewPubSub, delay = 100 * Millisecond, timeOut = 0,
      fetcherFunc = test_fetcher\<rparr>
     \<lparr>now = 7, fstate = \<lparr>calls = 0, val = 0, fail = False\<rparr>\<rparr>
   = ((1, None),
      \<lparr>lastValue = 1, listeners = NewPubSub, delay = 100 * Millisecond, timeOut = 100000007,
       fetcherFunc = test_fetcher\<rparr>,
      \<lparr>now = 7, fstate = \<lparr>calls = 1, val = 1, fail = False\<rparr>\<rparr>) \<and>
   now \<lparr>now = 20000007, fstate = \<lparr>calls = 1, val = 1, fail = False\<rparr>\<rparr>
     \<le> timeOut \<lparr>lastValue = 1, listeners = NewPubSub, delay = 100 * Millisecond,
                 timeOut = 100000007, fetcherFunc = test_fetcher\<rparr> \<and>
   PubSubDebouncer_GetValue
     \<lparr>lastValue = 1, listeners = NewPubSub, delay = 100 * Millisecond, timeOut = 100000007,
      fetcherFunc = test_fetcher\<rparr>
     \<lparr>now = 20000007, fstate = \<lparr>calls = 1, val = 1, fail = False\<rparr>\<rparr>
   = ((1, None),
      \<lparr>lastValue = 1, listeners = NewPubSub, delay = 100 * Millisecond, timeOut = 100000007,
       fetcherFunc = test_fetcher\<rparr>,
      \<lparr>now = 20000007, fstate = \<lparr>calls = 1, val = 1, fail = False\<rparr>\<rparr>) \<and>
   (0::int) < 7 \<and>
   debounce_scenario
     \<lparr>lastValue = 0, listeners = NewPubSub, delay = 50 * Millisecond, timeOut = 0,
      fetcherFunc = test_fetcher\<rparr> 7 (20 * Millisecond) (40 * Millisecond)
     = [((1, None), 1), ((1, None), 1), ((2, None), 2)] \<and>
   100 * Millisecond \<le> 100 * Millisecond \<and>
   debounce_scenario (projr (NewPubSubDebouncer 0 (100 * Millisecond) test_fetcher)) 7
     (20 * Millisecond) (90 * Millisecond)
     = [((1, None), 1), ((1, None), 1), ((2, None), 2)]"
proof -
  let ?w0 = "\<lparr>now = 7, fstate = \<lparr>calls = 0, val = 0, fail = False\<rparr>\<rparr>"
  let ?d0 = "\<lparr>lastValue = 0 :: int, listeners = NewPubSub, delay = 100 * Millisecond, timeOut = 0,
      fetcherFunc = test_fetcher\<rparr>"
  let ?w1 = "\<lparr>now = 20000007, fstate = \<lparr>calls = 1, val = 1, fail = False\<rparr>\<rparr>"
  let ?d1 = "\<lparr>lastValue = 1 :: int, listeners = NewPubSub, delay = 100 * Millisecond,
      timeOut = 100000007, fetcherFunc = test_fetcher\<rparr>"
  have f: "fetcherFunc ?d0 ?w0 = ((1, None), \<lparr>now = 7, fstate = \<lparr>calls = 1, val = 1, fail = False\<rparr>\<rparr>)"
    by (simp add: test_fetcher_def)
  have t: "(0::int) < 7" by simp
  have s: "0 < (7::int) \<and> 100 * Millisecond \<le> 100 * Millisecond \<and> 0 \<le> 20 * Millisecond \<and>
      20 * Millisecond \<le> 100 * Millisecond \<and> 100 * Millisecond < 20 * Millisecond + 90 * Millisecond"
    by (simp add: Millisecond_def)
  show ?thesis
    using PubSubDebouncer_GetValue_refresh [of ?d0 ?w0 1 "\<lparr>now = 7, fstate = \<lparr>calls = 1, val = 1, fail = False\<rparr>\<rparr>" 7
        "100 * Millisecond" "20 * Millisecond" "90 * Millisecond"]
      PubSubDebouncer_GetValue_refresh [of ?d1 ?w1 1 ?w1 7
        "100 * Millisecond" "20 * Millisecond" "90 * Millisecond"] f s
    by (simp add: Millisecond_def)
qed

text \<open>
  C3 as stated fails at the deadline itself: with the clock equal to the deadline
  \<open>GetValue\<close> does not fetch (the fetcher has still been called once, and nothing
  changes). And no \<open>PubSubDebouncer\<close> with a delay of 50 ms comes out of the
  constructor, which panics.
\<close>

theorem PubSubDebouncer_GetValue_at_deadline:
  "now \<lparr>now = 100000007, fstate = \<lparr>calls = 1, val = 1, fail = False\<rparr>\<rparr>
     = timeOut \<lparr>lastValue = 1, listeners = NewPubSub, delay = 100 * Millisecond,
                 timeOut = 100000007, fetcherFunc = test_fetcher\<rparr> \<and>
   PubSubDebouncer_GetValue
     \<lparr>lastValue = 1, listeners = NewPubSub, delay = 100 * Millisecond, timeOut = 100000007,
      fetcherFunc = test_fetcher\<rparr>
     \<lparr>now = 100000007, fstate = \<lparr>calls = 1, val = 1, fail = False\<rparr>\<rparr>
   = ((1, None),
      \<lparr>lastValue = 1, listeners = NewPubSub, delay = 100 * Millisecond, timeOut = 100000007,
       fetcherFunc = test_fetcher\<rparr>,
      \<lparr>now = 100000007, fstate = \<lparr>calls = 1, val = 1, fail = False\<rparr>\<rparr>) \<and>
   NewPubSubDebouncer (0 :: int) (50 * Millisecond) test_fetcher = Inl Panic"
  by (simp add: PubSubDebouncer_GetValue_def NewPubSubDebouncer_def Millisecond_def)


section \<open>PubSubDebouncer: SetValue\<close>

lemma registered_ok_New: "registered_ok NewPubSub empty_heap"
  by (simp add: registered_ok_def NewPubSub_def)

lemma registered_ok_Register:
  assumes "registered_ok s h" and "Register s h n = (c, s', h')"
  shows "registered_ok s' h' \<and> c \<notin> set (clients s) \<and> clients s' = clients s @ [c] \<and>
         has_room h' c = (0 < n)"
  using assms
  by (auto simp: registered_ok_def Register_def make_chan_def list_all_iff has_room_def less_Suc_eq)

lemma registered_ok_Unregister:
  assumes "registered_ok s h"
  shows "registered_ok (fst (Unregister s h c)) (snd (Unregister s h c))"
proof -
  have "set (Unregister_loop (clients s) 0 c) \<subseteq> set (clients s)"
    by (rule Unregister_loop_subset)
  then show ?thesis using assms
    by (auto simp: registered_ok_def Unregister_def list_all_iff Unregister_loop_distinct)
qed

lemma two_listeners_eq:
  "two_listeners zero fetch =
     (\<lparr>lastValue = zero, listeners = \<lparr>clients = [0, 1]\<rparr>, delay = 120 * Millisecond, timeOut = 0,
       fetcherFunc = fetch\<rparr>,
      \<lparr>cells = (\<lambda>a. None)(0 \<mapsto> \<lparr>chan_buf = [], chan_cap = 1, chan_closed = False\<rparr>,
                            1 \<mapsto> \<lparr>chan_buf = [], chan_cap = 1, chan_closed = False\<rparr>),
       fresh = 2\<rparr>)"
  by (simp add: two_listeners_def NewPubSubDebouncer_def PubSubDebouncer_Register_def Register_def
      make_chan_def NewPubSub_def empty_heap_def IsActive_def Millisecond_def eval_nat_numeral)











text \<open>
  The default branch on a value that is not equal to itself: a debouncer over a named
  float type whose cached value is a NaN is given the NaN again. Go's \<open>!=\<close> holds, so
  the call stores the value and broadcasts it to both listeners.
\<close>

lemma SetValue_NaN_again:
  "PubSubDebouncer_SetValue \<lparr>sub64 = sub_exact, sub32 = sub_exact\<rparr> (TOther irreflexive_NaN)
       (fst (two_listeners NaN (const_fetcher NaN :: unit world \<Rightarrow> _)))
       (snd (two_listeners NaN (const_fetcher NaN :: unit world \<Rightarrow> _)))
       \<lparr>now = 1000, fstate = ()\<rparr> NaN
     = ((fst (two_listeners NaN (const_fetcher NaN)))\<lparr>timeOut := 120001000\<rparr>,
        Broadcast (listeners (fst (two_listeners NaN (const_fetcher NaN :: unit world \<Rightarrow> _))))
          (snd (two_listeners NaN (const_fetcher NaN :: unit world \<Rightarrow> _))) NaN) \<and>
   fst (Broadcast (listeners (fst (two_listeners NaN (const_fetcher NaN :: unit world \<Rightarrow> _))))
          (snd (two_listeners NaN (const_fetcher NaN :: unit world \<Rightarrow> _))) NaN) = None \<and>
   contents (snd (Broadcast (listeners (fst (two_listeners NaN (const_fetcher NaN :: unit world \<Rightarrow> _))))
          (snd (two_listeners NaN (const_fetcher NaN :: unit world \<Rightarrow> _))) NaN)) 0 = [NaN] \<and>
   contents (snd (Broadcast (listeners (fst (two_listeners NaN (const_fetcher NaN :: unit world \<Rightarrow> _))))
          (snd (two_listeners NaN (const_fetcher NaN :: unit world \<Rightarrow> _))) NaN)) 1 = [NaN]"
  by (simp add: two_listeners_eq PubSubDebouncer_SetValue_def go_ne_def Broadcast_def
      chan_send_def contents_def Millisecond_def)



section \<open>WorkerPool: what every execution conserves\<close>

lemma delete_at_mset:
  "i < length xs \<Longrightarrow> add_mset (xs ! i) (mset (delete_at i xs)) = mset xs"
proof -
  assume "i < length xs"
  then have "xs = take i xs @ xs ! i # drop (Suc i) xs" by (rule id_take_nth_drop)
  then have "mset xs = mset (take i xs @ xs ! i # drop (Suc i) xs)" by simp
  then show ?thesis by (simp add: delete_at_def)
qed

lemma delete_at_map_mset:
  "i < length xs \<Longrightarrow> add_mset (g (xs ! i)) (mset (map g (delete_at i xs))) = mset (map g xs)"
proof -
  assume a: "i < length xs"
  have "mset (map g xs) = image_mset g (mset xs)" by simp
  also have "\<dots> = image_mset g (add_mset (xs ! i) (mset (delete_at i xs)))"
    by (simp only: delete_at_mset [OF a])
  finally show ?thesis by simp
qed

lemma held_update:
  "j < length ws \<Longrightarrow>
   mset (concat (map held (ws[j := x]))) + mset (held (ws ! j)) =
   mset (concat (map held ws)) + mset (held x)"
proof (induction ws arbitrary: j)
  case Nil
  then show ?case by simp
next
  case (Cons w ws)
  show ?case
  proof (cases j)
    case 0
    then show ?thesis by simp
  next
    case (Suc k)
    with Cons.prems have "k < length ws" by simp
    from Cons.IH [OF this] show ?thesis using Suc by simp
  qed
qed

lemma posted_Cons: "posted (a # as) = posted [a] @ posted as"
  by (cases a) simp_all

lemma step_workFn: "step a p = Inr (p', out) \<Longrightarrow> workFn p' = workFn p"
  by (cases a) (auto split: if_splits worker.splits)

lemma step_count:
  "step a p = Inr (p', out) \<Longrightarrow>
   count_wp p' = count_wp p + of_nat (length (posted [a])) - of_nat (length out)"
  by (cases a) (auto split: if_splits worker.splits)

lemma step_in_flight:
  assumes "step a p = Inr (p', out)"
  shows "in_flight p' + mset out = in_flight p + mset (map (workFn p) (posted [a]))"
proof (cases a)
  case (PostCall w)
  with assms show ?thesis by (auto simp: in_flight_def)
next
  case (PostSend i)
  with assms have i: "i < length (posting p)" by (auto split: if_splits)
  from delete_at_map_mset [OF i, of "workFn p"] PostSend assms show ?thesis
    by (auto simp: in_flight_def split: if_splits)
next
  case (PostHandoff i j)
  with assms have i: "i < length (posting p)" and j: "j < length (workers p)"
    and w: "workers p ! j = Waiting" by (auto split: if_splits)
  from delete_at_map_mset [OF i, of "workFn p"]
    held_update [OF j, of "Sending (workFn p (posting p ! i))"] w PostHandoff assms
  show ?thesis by (auto simp: in_flight_def split: if_splits)
next
  case (WorkerTake j)
  with assms have j: "j < length (workers p)" and w: "workers p ! j = Waiting"
    and ne: "work p \<noteq> []" by (auto split: if_splits)
  from ne obtain x xs where x: "work p = x # xs" by (cases "work p") auto
  from held_update [OF j, of "Sending (workFn p x)"] w x WorkerTake assms
  show ?thesis by (auto simp: in_flight_def split: if_splits)
next
  case (WorkerExit j)
  with assms have j: "j < length (workers p)" and w: "workers p ! j = Waiting"
    by (auto split: if_splits)
  from held_update [OF j, of Exited] w WorkerExit assms
  show ?thesis by (auto simp: in_flight_def split: if_splits)
next
  case (WorkerSend j)
  with assms obtain r where j: "j < length (workers p)" and w: "workers p ! j = Sending r"
    by (auto split: if_splits worker.splits)
  from held_update [OF j, of Waiting] w WorkerSend assms
  show ?thesis by (auto simp: in_flight_def split: if_splits)
next
  case ResultRecv
  with assms have ne: "result p \<noteq> []" by (auto split: if_splits)
  then obtain x xs where x: "result p = x # xs" by (cases "result p") auto
  with ResultRecv assms show ?thesis by (auto simp: in_flight_def split: if_splits)
next
  case (ResultHandoff j)
  with assms obtain r where j: "j < length (workers p)" and w: "workers p ! j = Sending r"
    by (auto split: if_splits worker.splits)
  from held_update [OF j, of Waiting] w ResultHandoff assms
  show ?thesis by (auto simp: in_flight_def split: if_splits)
next
  case (ResultReturn i)
  with assms have i: "i < length (taken p)" by (auto split: if_splits)
  from delete_at_mset [OF i] ResultReturn assms show ?thesis
    by (auto simp: in_flight_def split: if_splits)
next
  case CloseCall
  with assms show ?thesis by (auto simp: in_flight_def split: if_splits)
qed

lemma run_conserves:
  "run as p = Inr (p', out) \<Longrightarrow>
   workFn p' = workFn p \<and>
   in_flight p' + mset out = in_flight p + mset (map (workFn p) (posted as)) \<and>
   count_wp p' = count_wp p + of_nat (length (posted as)) - of_nat (length out)"
proof (induction as arbitrary: p out)
  case Nil
  then show ?case by simp
next
  case (Cons a as)
  from Cons.prems obtain p1 o1 o2 where s: "step a p = Inr (p1, o1)"
    and r: "run as p1 = Inr (p', o2)" and o: "out = o1 @ o2"
    by (auto split: sum.splits prod.splits)
  note ih = Cons.IH [OF r]
  note f1 = step_workFn [OF s] and c1 = step_count [OF s] and m1 = step_in_flight [OF s]
  have "workFn p' = workFn p" using ih f1 by simp
  moreover have "in_flight p' + mset out = in_flight p + mset (map (workFn p) (posted (a # as)))"
  proof -
    have "in_flight p' + mset out = (in_flight p' + mset o2) + mset o1" by (simp add: o)
    also have "\<dots> = in_flight p1 + mset (map (workFn p) (posted as)) + mset o1"
      using ih f1 by simp
    also have "\<dots> = (in_flight p1 + mset o1) + mset (map (workFn p) (posted as))" by simp
    also have "\<dots> = in_flight p + mset (map (workFn p) (posted [a])) + mset (map (workFn p) (posted as))"
      by (simp only: m1)
    also have "\<dots> = in_flight p + mset (map (workFn p) (posted (a # as)))"
      by (subst (2) posted_Cons) simp
    finally show ?thesis .
  qed
  moreover have "count_wp p' = count_wp p + of_nat (length (posted (a # as))) - of_nat (length out)"
  proof -
    have "length (posted (a # as)) = length (posted [a]) + length (posted as)"
      by (subst posted_Cons) simp
    then show ?thesis using ih c1 by (simp add: o)
  qed
  ultimately show ?case by blast
qed

lemma run_append:
  "run (as @ bs) p =
     (case run as p of
        Inl e \<Rightarrow> Inl e
      | Inr (p', out1) \<Rightarrow>
          (case run bs p' of
             Inl e \<Rightarrow> Inl e
           | Inr (p'', out2) \<Rightarrow> Inr (p'', out1 @ out2)))"
  by (induction as arbitrary: p) (auto split: sum.splits prod.splits)

lemma posted_append: "posted (as @ bs) = posted as @ posted bs"
proof (induction as)
  case Nil
  then show ?case by simp
next
  case (Cons a as)
  have "posted ((a # as) @ bs) = posted [a] @ posted (as @ bs)"
    by (simp add: posted_Cons [of a "as @ bs"])
  also have "\<dots> = posted [a] @ posted as @ posted bs" by (simp add: Cons.IH)
  also have "\<dots> = posted (a # as) @ posted bs" by (simp add: posted_Cons [of a as])
  finally show ?case .
qed

lemma serve_run:
  assumes "idle p"
  shows "run (serve w) p = Inr (p, [workFn p w])"
proof -
  from assms obtain x xs where ws: "workers p = x # xs" "x = Waiting"
    by (cases "workers p") (auto simp: idle_def)
  show ?thesis using assms ws
    by (simp add: serve_def idle_def delete_at_def)
qed

lemma serve_all_run:
  "idle p \<Longrightarrow> run (concat (map serve ws)) p = Inr (p, map (workFn p) ws)"
  by (induction ws) (simp_all add: run_append serve_run)

lemma posted_serve_all: "posted (concat (map serve ws)) = ws"
  by (induction ws) (simp_all add: posted_append, simp add: serve_def)

lemma NewWorkerPool_Inr:
  "NewWorkerPool fn b n = Inr p0 \<Longrightarrow>
   workFn p0 = fn \<and> count_wp p0 = 0 \<and> in_flight p0 = {#} \<and> idle p0 \<and> backlog p0 = nat b \<and> 0 \<le> b"
  by (auto simp: NewWorkerPool_def in_flight_def idle_def split: if_splits)

lemma flood_Suc: "flood (Suc n) w = [PostCall w, PostSend 0] @ flood n w"
  by (simp add: flood_def)

lemma flood_run:
  "posting p = [] \<Longrightarrow> \<not> work_closed p \<Longrightarrow> length (work p) + n \<le> backlog p \<Longrightarrow>
   run (flood n w) p =
     Inr (p\<lparr>work := work p @ replicate n w, count_wp := count_wp p + of_nat n\<rparr>, [])"
proof (induction n arbitrary: p)
  case 0
  then show ?case by (simp add: flood_def)
next
  case (Suc n)
  let ?p1 = "p\<lparr>count_wp := count_wp p + 1, posting := [], work := work p @ [w]\<rparr>"
  have two: "run [PostCall w, PostSend 0] p = Inr (?p1, [])"
    using Suc.prems by (simp add: delete_at_def)
  have ih: "run (flood n w) ?p1 =
     Inr (?p1\<lparr>work := work ?p1 @ replicate n w, count_wp := count_wp ?p1 + of_nat n\<rparr>, [])"
    using Suc.prems by (intro Suc.IH) simp_all
  have eq: "?p1\<lparr>work := work ?p1 @ replicate n w, count_wp := count_wp ?p1 + of_nat n\<rparr>
      = p\<lparr>work := work p @ replicate (Suc n) w, count_wp := count_wp p + of_nat (Suc n)\<rparr>"
    using Suc.prems(1) by (intro WorkerPool.equality) (simp_all add: replicate_app_Cons_same)
  have "run ([PostCall w, PostSend 0] @ flood n w) p =
     Inr (?p1\<lparr>work := work ?p1 @ replicate n w, count_wp := count_wp ?p1 + of_nat n\<rparr>, [])"
    by (simp only: run_append two ih sum.case prod.case append_Nil)
  then show ?case by (simp only: flood_Suc eq)
qed

lemma posted_flood: "posted (flood n w) = replicate n w"
  by (induction n) (simp_all add: flood_Suc, simp add: flood_def)

lemma sint_count:
  assumes "m \<le> k" "k - m < 2 ^ 31"
  shows "sint (of_nat k - of_nat m :: 32 word) = int k - int m"
proof -
  have "(of_nat k - of_nat m :: 32 word) = of_nat (k - m)" using assms(1) by simp
  moreover have "sint (of_nat (k - m) :: 32 word) = int (k - m)"
  proof -
    have "sint (of_nat (k - m) :: 32 word) = sint (word_of_int (int (k - m)) :: 32 word)"
      by simp
    also have "\<dots> = signed_take_bit 31 (int (k - m))" by (simp only: sint_sbintrunc') simp
    also have "\<dots> = int (k - m)"
    proof (rule signed_take_bit_int_eq_self)
      show "- (2 ^ 31) \<le> int (k - m)" by simp
      have "int (k - m) < int (2 ^ 31)" using assms(2) by (simp only: of_nat_less_iff)
      then show "int (k - m) < 2 ^ 31" by simp
    qed
    finally show ?thesis .
  qed
  ultimately show ?thesis using assms(1) by simp
qed

lemma run_from_new:
  assumes "NewWorkerPool fn b n = Inr p0" "run as p0 = Inr (p, out)"
  shows "in_flight p + mset out = mset (map fn (posted as))"
    and "count_wp p = of_nat (length (posted as)) - of_nat (length out)"
    and "length out \<le> length (posted as)"
proof -
  note n = NewWorkerPool_Inr [OF assms(1)] and c = run_conserves [OF assms(2)]
  show m: "in_flight p + mset out = mset (map fn (posted as))" using n c by simp
  show "count_wp p = of_nat (length (posted as)) - of_nat (length out)" using n c by simp
  have "size (in_flight p + mset out) = size (mset (map fn (posted as)))" by (simp only: m)
  then show "length out \<le> length (posted as)" by simp
qed


section \<open>WorkerPool: results and the in-flight counter\<close>

text \<open>
  C5. In every execution of a new pool, whatever the scheduler does, the results returned
  so far plus the results still on their way are the images of the posted items under the
  worker function. So once as many results have been returned as items were posted, the
  returned results are exactly those images, each posted item has given one result,
  nothing is on its way, and the counter is 0: \<open>IsActive\<close> is false. For the identity
  and the items 1 to 10: after 10 results the results are the multiset of 1 to 10 and
  \<open>IsActive\<close> is false. Such executions exist for every backlog and every number of
  workers the constructor accepts: serving the items one after the other returns their
  images in order.
\<close>

theorem WorkerPool_results_are_posts:
  "(NewWorkerPool fn b n = Inr p0 \<and> run as p0 = Inr (p, out) \<and>
      length out = length (posted as) \<longrightarrow>
        mset out = mset (map fn (posted as)) \<and> in_flight p = {#} \<and>
        WorkerPool_Len p = 0 \<and> \<not> WorkerPool_IsActive p) \<and>
   (NewWorkerPool id b n = Inr q0 \<and> run bs q0 = Inr (q, res) \<and>
      posted bs = [1..10] \<and> length res = 10 \<longrightarrow>
        mset res = mset [1..10] \<and> \<not> WorkerPool_IsActive q) \<and>
   (0 \<le> b \<and> 1 \<le> n \<longrightarrow>
      (\<exists>r0. NewWorkerPool fn b n = Inr r0 \<and>
         run (concat (map serve ws)) r0 = Inr (r0, map fn ws) \<and>
         posted (concat (map serve ws)) = ws))"
proof (intro conjI impI)
  assume a: "NewWorkerPool fn b n = Inr p0 \<and> run as p0 = Inr (p, out) \<and>
      length out = length (posted as)"
  then have n: "NewWorkerPool fn b n = Inr p0" and r: "run as p0 = Inr (p, out)"
    and l: "length out = length (posted as)" by simp_all
  note m = run_from_new(1) [OF n r] and c = run_from_new(2) [OF n r]
  have "size (in_flight p + mset out) = size (mset (map fn (posted as)))" by (simp only: m)
  then have "size (in_flight p) = 0" using l by simp
  then show e: "in_flight p = {#}" by simp
  show "mset out = mset (map fn (posted as))" using m e by simp
  have z: "count_wp p = 0" using c l by simp
  show "WorkerPool_Len p = 0" by (simp add: WorkerPool_Len_def z)
  show "\<not> WorkerPool_IsActive p" by (simp add: WorkerPool_IsActive_def z)
next
  assume a: "NewWorkerPool id b n = Inr q0 \<and> run bs q0 = Inr (q, res) \<and>
      posted bs = [1..10] \<and> length res = 10"
  then have n: "NewWorkerPool id b n = Inr q0" and r: "run bs q0 = Inr (q, res)"
    and pb: "posted bs = [1..10]" and l: "length res = 10" by simp_all
  have lp: "length (posted bs) = 10" by (simp add: pb)
  note m = run_from_new(1) [OF n r] and c = run_from_new(2) [OF n r]
  have "size (in_flight q + mset res) = size (mset (map id (posted bs)))" by (simp only: m)
  then have "size (in_flight q) = 0" using l lp by simp
  then have e: "in_flight q = {#}" by simp
  show "mset res = mset [1..10]" using m e pb by simp
  have z: "count_wp q = 0" using c l lp by simp
  show "\<not> WorkerPool_IsActive q" by (simp add: WorkerPool_IsActive_def z)
next
  assume a: "0 \<le> b \<and> 1 \<le> n"
  let ?r0 = "\<lparr>work = [], work_closed = False, result = [], backlog = nat b,
                workFn = fn, count_wp = 0, workers = replicate (nat n) Waiting,
                posting = [], taken = []\<rparr>"
  have n: "NewWorkerPool fn b n = Inr ?r0" using a by (simp add: NewWorkerPool_def)
  have i: "idle ?r0" using NewWorkerPool_Inr [OF n] by simp
  have "run (concat (map serve ws)) ?r0 = Inr (?r0, map (workFn ?r0) ws)"
    by (rule serve_all_run [OF i])
  then have "run (concat (map serve ws)) ?r0 = Inr (?r0, map fn ws)" by simp
  with n posted_serve_all [of ws]
  show "\<exists>r0. NewWorkerPool fn b n = Inr r0 \<and>
         run (concat (map serve ws)) r0 = Inr (r0, map fn ws) \<and>
         posted (concat (map serve ws)) = ws" by blast
qed

theorem WorkerPool_results_are_posts_witness:
  "NewWorkerPool (id :: int \<Rightarrow> int) 0 2 =
     Inr \<lparr>work = [], work_closed = False, result = [], backlog = 0, workFn = (id :: int \<Rightarrow> int),
          count_wp = 0, workers = [Waiting, Waiting], posting = [], taken = []\<rparr> \<and>
   run (concat (map serve [1..10]))
       \<lparr>work = [], work_closed = False, result = [], backlog = 0, workFn = (id :: int \<Rightarrow> int),
        count_wp = 0, workers = [Waiting, Waiting], posting = [], taken = []\<rparr>
     = Inr (\<lparr>work = [], work_closed = False, result = [], backlog = 0, workFn = (id :: int \<Rightarrow> int),
             count_wp = 0, workers = [Waiting, Waiting], posting = [], taken = []\<rparr>,
            [1, 2, 3, 4, 5, 6, 7, 8, 9, 10 :: int]) \<and>
   posted (concat (map serve [1..10])) = [1..10] \<and>
   length [1, 2, 3, 4, 5, 6, 7, 8, 9, 10 :: int] = 10 \<and>
   (0 :: int) \<le> 0 \<and> (1 :: int) \<le> 2 \<and>
   mset [1, 2, 3, 4, 5, 6, 7, 8, 9, 10 :: int] = mset [1..10] \<and>
   \<not> WorkerPool_IsActive
       \<lparr>work = [], work_closed = False, result = [], backlog = 0, workFn = (id :: int \<Rightarrow> int),
        count_wp = 0, workers = [Waiting, Waiting], posting = [], taken = []\<rparr>"
proof -
  let ?p = "\<lparr>work = [], work_closed = False, result = [], backlog = 0, workFn = (id :: int \<Rightarrow> int),
        count_wp = 0, workers = [Waiting, Waiting], posting = [], taken = []\<rparr>"
  let ?out = "[1, 2, 3, 4, 5, 6, 7, 8, 9, 10 :: int]"
  have u: "[1..10] = ?out" by (simp add: upto.simps)
  have n: "NewWorkerPool id 0 2 = Inr ?p"
    by (simp add: NewWorkerPool_def eval_nat_numeral)
  have r: "run (concat (map serve ?out)) ?p = Inr (?p, ?out)"
    by (simp add: serve_def delete_at_def)
  have p: "posted (concat (map serve ?out)) = ?out" by (simp add: serve_def)
  have l: "length ?out = 10" by simp
  have h: "NewWorkerPool id 0 2 = Inr ?p \<and> run (concat (map serve ?out)) ?p = Inr (?p, ?out) \<and>
      length ?out = length (posted (concat (map serve ?out)))" using n r p by simp
  have h2: "NewWorkerPool id 0 2 = Inr ?p \<and> run (concat (map serve ?out)) ?p = Inr (?p, ?out) \<and>
      posted (concat (map serve ?out)) = [1..10] \<and> length ?out = 10" using n r p u by simp
  from WorkerPool_results_are_posts [of id 0 2 ?p "concat (map serve ?out)" ?p ?out ?p
      "concat (map serve ?out)" ?p ?out ?out] h h2
  have "mset ?out = mset [1..10]" and "\<not> WorkerPool_IsActive ?p" by blast+
  moreover have "(0 :: int) \<le> 0" "(1 :: int) \<le> 2" by simp_all
  ultimately show ?thesis using n r p l unfolding u by (intro conjI)
qed

text \<open>
  C8, within the range of the counter. In every execution of a new pool the number of
  results returned is at most the number of \<open>Post\<close> calls made, and the 32-bit counter
  is their difference modulo \<open>2 ^ 32\<close>. While fewer than \<open>2 ^ 31\<close> posted items are
  without a returned result, \<open>Len\<close> is the number of \<open>Post\<close> calls minus the number of
  returned results, and it is not negative.
\<close>

theorem WorkerPool_Len_is_posts_minus_results:
  "NewWorkerPool fn b n = Inr p0 \<and> run as p0 = Inr (p, out) \<longrightarrow>
     length out \<le> length (posted as) \<and>
     count_wp p = of_nat (length (posted as)) - of_nat (length out) \<and>
     (length (posted as) - length out < 2 ^ 31 \<longrightarrow>
        WorkerPool_Len p = int (length (posted as)) - int (length out) \<and> 0 \<le> WorkerPool_Len p)"
proof (intro impI conjI)
  assume a: "NewWorkerPool fn b n = Inr p0 \<and> run as p0 = Inr (p, out)"
  then have n: "NewWorkerPool fn b n = Inr p0" and r: "run as p0 = Inr (p, out)" by simp_all
  show le: "length out \<le> length (posted as)" by (rule run_from_new(3) [OF n r])
  show c: "count_wp p = of_nat (length (posted as)) - of_nat (length out)"
    by (rule run_from_new(2) [OF n r])
  assume b: "length (posted as) - length out < 2 ^ 31"
  show l: "WorkerPool_Len p = int (length (posted as)) - int (length out)"
    unfolding WorkerPool_Len_def c by (rule sint_count [OF le b])
  show "0 \<le> WorkerPool_Len p" using le by (simp add: l)
qed

theorem WorkerPool_Len_is_posts_minus_results_witness:
  "NewWorkerPool (id :: int \<Rightarrow> int) 1 1 =
     Inr \<lparr>work = [], work_closed = False, result = [], backlog = 1, workFn = (id :: int \<Rightarrow> int),
          count_wp = 0, workers = [Waiting], posting = [], taken = []\<rparr> \<and>
   run [PostCall 5, PostSend 0, WorkerTake 0, PostCall 6, PostSend 0, WorkerSend 0,
        ResultRecv, ResultReturn 0]
       \<lparr>work = [], work_closed = False, result = [], backlog = 1, workFn = (id :: int \<Rightarrow> int),
        count_wp = 0, workers = [Waiting], posting = [], taken = []\<rparr>
     = Inr (\<lparr>work = [6], work_closed = False, result = [], backlog = 1, workFn = (id :: int \<Rightarrow> int),
             count_wp = 1, workers = [Waiting], posting = [], taken = []\<rparr>, [5 :: int]) \<and>
   length (posted [PostCall (5 :: int), PostSend 0, WorkerTake 0, PostCall 6, PostSend 0,
        WorkerSend 0, ResultRecv, ResultReturn 0]) - length [5 :: int] < 2 ^ 31 \<and>
   WorkerPool_Len \<lparr>work = [6], work_closed = False, result = [], backlog = 1,
        workFn = (id :: int \<Rightarrow> int), count_wp = 1, workers = [Waiting], posting = [],
        taken = []\<rparr> = 1"
proof -
  let ?init = "\<lparr>work = [], work_closed = False, result = [], backlog = 1, workFn = (id :: int \<Rightarrow> int),
          count_wp = 0, workers = [Waiting], posting = [], taken = []\<rparr>"
  let ?fin = "\<lparr>work = [6], work_closed = False, result = [], backlog = 1, workFn = (id :: int \<Rightarrow> int),
             count_wp = 1, workers = [Waiting], posting = [], taken = []\<rparr>"
  let ?sched = "[PostCall (5 :: int), PostSend 0, WorkerTake 0, PostCall 6, PostSend 0, WorkerSend 0,
        ResultRecv, ResultReturn 0]"
  have n: "NewWorkerPool id 1 1 = Inr ?init" by (simp add: NewWorkerPool_def)
  have r: "run ?sched ?init = Inr (?fin, [5])" by (simp add: delete_at_def)
  have b: "length (posted ?sched) - length [5 :: int] < 2 ^ 31" by simp
  from WorkerPool_Len_is_posts_minus_results [of id 1 1 ?init ?sched ?fin "[5]"] n r b
  have "WorkerPool_Len ?fin = int (length (posted ?sched)) - int (length [5 :: int])" by blast
  then have "WorkerPool_Len ?fin = 1" by simp
  then show ?thesis using n r b by (intro conjI)
qed

text \<open>
  C8 as stated fails at the width of the counter: a pool of \<open>struct{}\<close> items with a
  backlog of \<open>2 ^ 31\<close> accepts \<open>2 ^ 31\<close> calls of \<open>Post\<close>, which all return; no
  result has been retrieved, and \<open>Len\<close> is \<open>- 2 ^ 31\<close>.
\<close>

theorem WorkerPool_Len_wraps:
  "\<not> isl (NewWorkerPool (id :: unit \<Rightarrow> unit) 2147483648 1) \<and>
   \<not> isl (run (flood 2147483648 ()) (projr (NewWorkerPool (id :: unit \<Rightarrow> unit) 2147483648 1))) \<and>
   length (posted (flood 2147483648 ())) = 2147483648 \<and>
   snd (projr (run (flood 2147483648 ()) (projr (NewWorkerPool (id :: unit \<Rightarrow> unit) 2147483648 1)))) = [] \<and>
   posting (fst (projr (run (flood 2147483648 ()) (projr (NewWorkerPool (id :: unit \<Rightarrow> unit) 2147483648 1))))) = [] \<and>
   WorkerPool_Len (fst (projr (run (flood 2147483648 ()) (projr (NewWorkerPool (id :: unit \<Rightarrow> unit) 2147483648 1)))))
     = - 2147483648"
proof -
  let ?p0 = "\<lparr>work = [], work_closed = False, result = [], backlog = nat 2147483648,
                workFn = (id :: unit \<Rightarrow> unit), count_wp = 0, workers = replicate (nat 1) Waiting,
                posting = [], taken = []\<rparr>"
  have n: "NewWorkerPool (id :: unit \<Rightarrow> unit) 2147483648 1 = Inr ?p0"
    by (simp add: NewWorkerPool_def)
  have r: "run (flood 2147483648 ()) ?p0 =
     Inr (?p0\<lparr>work := work ?p0 @ replicate 2147483648 (), count_wp := count_wp ?p0 + of_nat 2147483648\<rparr>, [])"
    by (rule flood_run) simp_all
  have s: "sint (2147483648 :: 32 word) = - 2147483648" by simp
  show ?thesis
    unfolding n sum.sel r by (simp add: WorkerPool_Len_def posted_flood s)
qed


end
